theory Spec2Isabelle
  imports Main "HOL-Library.AList"
begin

section \<open>JSON values and property lists\<close>

text \<open>
  \<^verbatim>\<open>lib/template.js\<close> reads manifests with \<^verbatim>\<open>require\<close>, so every value it handles is
  what a JSON parser produces. \<open>JObj\<close> carries the members of an object text as they are
  written; the object that the parser builds from them has every name once (\<open>own\<close>,
  below). JavaScript's \<^verbatim>\<open>undefined\<close> is not a JSON value: a value that may be undefined is
  a \<open>json option\<close>, with \<open>None\<close> for \<^verbatim>\<open>undefined\<close>.

  Numbers are integers here: the code never computes with a number, it only tests whether
  one is zero. Properties are kept in the order of their creation; the engine's rule that
  enumerates integer-like keys before the others is left out. Of the built-in prototypes
  the model has \<^verbatim>\<open>Object.prototype\<close>: the names that every object inherits from it, and
  the setter behind \<^verbatim>\<open>__proto__\<close>. The further names that an array, a string, a number
  or a boolean inherits from its own prototype differ between engines and are not listed.
\<close>

datatype json =
    JNull
  | JBool bool
  | JNum int
  | JStr string
  | JArr "json list"
  | JObj "(string \<times> json) list"

type_synonym props = "(string \<times> json) list"

type_synonym path = "string list"

text \<open>
  What \<^verbatim>\<open>scripts[name]\<close> can be, and so what \<^verbatim>\<open>this.exec\<close> can be given: a value of the
  manifest, or the built-in that the name finds in the prototype chain.
\<close>

datatype command = Own json | Inherited string

datatype error =
    TypeError
  | SyntaxError path
  | ModuleNotFound path
  | ENOENT path
  | ENOTDIR path
  | EISDIR path
  | TemplateNotFound string
  | ScriptExecutionError command

text \<open>The test of \<^verbatim>\<open>if (v)\<close> and of \<^verbatim>\<open>v || w\<close>, and \<^verbatim>\<open>v || {}\<close>.\<close>

fun truthy :: "json option \<Rightarrow> bool" where
  "truthy None = False"
| "truthy (Some JNull) = False"
| "truthy (Some (JBool b)) = b"
| "truthy (Some (JNum n)) = (n \<noteq> 0)"
| "truthy (Some (JStr s)) = (s \<noteq> [])"
| "truthy (Some (JArr xs)) = True"
| "truthy (Some (JObj kvs)) = True"

definition or_empty :: "json option \<Rightarrow> json" where
  "or_empty v = (if truthy v then the v else JObj [])"

text \<open>The decimal name of an array index.\<close>

function string_of_nat :: "nat \<Rightarrow> string" where
  "string_of_nat n =
     (if n < 10 then [char_of (48 + n)]
      else string_of_nat (n div 10) @ [char_of (48 + n mod 10)])"
  by pat_completeness auto
termination
  by (relation "measure id") auto

declare string_of_nat.simps [simp del]

text \<open>
  Defining properties one after the other: a key that the object has keeps its place and
  takes the new value, a new key goes last. This is how \<^verbatim>\<open>JSON.parse\<close> builds an object
  from the members of its text, so that a repeated name takes its last value.
\<close>

definition overlay :: "('k \<times> 'v) list \<Rightarrow> ('k \<times> 'v) list \<Rightarrow> ('k \<times> 'v) list" where
  "overlay target source = fold (\<lambda>(k, v). AList.update k v) source target"

text \<open>
  The own enumerable properties of a value, which is what \<^verbatim>\<open>Object.assign\<close> copies from a
  source: the properties of an object, the elements of an array and the characters of a
  string under their indices, and nothing for \<^verbatim>\<open>undefined\<close>, \<^verbatim>\<open>null\<close>, a number or a
  boolean.
\<close>

fun own :: "json option \<Rightarrow> props" where
  "own (Some (JObj kvs)) = overlay [] kvs"
| "own (Some (JArr xs)) = zip (map string_of_nat [0..<length xs]) xs"
| "own (Some (JStr s)) = zip (map string_of_nat [0..<length s]) (map (\<lambda>c. JStr [c]) s)"
| "own _ = []"

text \<open>
  The property read \<^verbatim>\<open>v.k\<close> on a value \<open>v\<close> that is not \<^verbatim>\<open>null\<close> (a read on \<^verbatim>\<open>null\<close>
  throws, which the callers below check first), for a key that no prototype defines: the
  code reads \<^verbatim>\<open>dependencies\<close>, \<^verbatim>\<open>devDependencies\<close>, \<^verbatim>\<open>bake\<close> and \<^verbatim>\<open>scripts\<close> this way.
  The read \<^verbatim>\<open>scripts[name]\<close>, whose key is a parameter, is \<open>read_property\<close> below.
\<close>

fun get :: "json \<Rightarrow> string \<Rightarrow> json option" where
  "get (JArr xs) k =
     (if k = ''length'' then Some (JNum (int (length xs)))
      else map_of (rev (own (Some (JArr xs)))) k)"
| "get (JStr s) k =
     (if k = ''length'' then Some (JNum (int (length s)))
      else map_of (rev (own (Some (JStr s)))) k)"
| "get v k = map_of (rev (own (Some v))) k"

text \<open>
  The names that every object inherits from \<^verbatim>\<open>Object.prototype\<close>. Each holds a built-in
  function, but for \<^verbatim>\<open>__proto__\<close>, an accessor whose getter returns the prototype; all of
  these values are truthy.
\<close>

definition object_prototype :: "string list" where
  "object_prototype =
     [''constructor'', ''__defineGetter__'', ''__defineSetter__'', ''hasOwnProperty'',
      ''__lookupGetter__'', ''__lookupSetter__'', ''isPrototypeOf'', ''propertyIsEnumerable'',
      ''toString'', ''valueOf'', ''__proto__'', ''toLocaleString'']"

text \<open>
  The property read \<^verbatim>\<open>v[k]\<close> for any key, on a value that is not \<^verbatim>\<open>null\<close>: an own
  property, and otherwise what the prototype chain has under the key.
\<close>

definition read_property :: "json \<Rightarrow> string \<Rightarrow> command option" where
  "read_property v k =
     (case get v k of
        Some x \<Rightarrow> Some (Own x)
      | None \<Rightarrow> if k \<in> set object_prototype then Some (Inherited k) else None)"

fun truthy_command :: "command \<Rightarrow> bool" where
  "truthy_command (Own v) = truthy (Some v)"
| "truthy_command (Inherited k) = True"

text \<open>
  An object under construction: its own properties, whose values may be undefined, and
  whether the setter of \<^verbatim>\<open>__proto__\<close> is out of reach. A new object inherits the setter
  from \<^verbatim>\<open>Object.prototype\<close>. The setter makes the value that it is given the prototype
  of the object when that value is an object, an array or \<^verbatim>\<open>null\<close>, and ignores any
  other value; it is out of reach of an object whose prototype is \<^verbatim>\<open>null\<close>, or has an
  own property \<^verbatim>\<open>__proto__\<close>, as an object read from JSON can.
\<close>

type_synonym object = "(string \<times> json option) list \<times> bool"

fun hides_setter :: "json option \<Rightarrow> bool" where
  "hides_setter (Some JNull) = True"
| "hides_setter (Some (JObj kvs)) = (''__proto__'' \<in> fst ` set kvs)"
| "hides_setter v = False"

text \<open>
  The assignment \<^verbatim>\<open>target[k] = v\<close> that \<^verbatim>\<open>Object.assign\<close> makes for each property of a
  source. A key the target has takes the value in place. The key \<^verbatim>\<open>__proto__\<close>, while
  the target has no such property and inherits the setter, calls the setter and creates
  no property. Any other new key goes last.
\<close>

fun set_prop :: "string \<times> json option \<Rightarrow> object \<Rightarrow> object" where
  "set_prop (k, v) (target, hidden) =
     (if k = ''__proto__'' \<and> \<not> hidden \<and> k \<notin> fst ` set target then (target, hides_setter v)
      else (AList.update k v target, hidden))"

text \<open>
  \<^verbatim>\<open>Object.assign(target, ...sources)\<close>: each source's properties are set on the target in
  order. The code always assigns to a new object, \<^verbatim>\<open>assign({}, ...sources)\<close>, and uses the
  own properties of the result.
\<close>

definition assign1 :: "object \<Rightarrow> (string \<times> json option) list \<Rightarrow> object" where
  "assign1 target source = fold set_prop source target"

definition assign :: "(string \<times> json option) list list \<Rightarrow> (string \<times> json option) list" where
  "assign sources = fst (fold (\<lambda>source target. assign1 target source) sources ([], False))"

section \<open>Merging two manifests\<close>

text \<open>
  The object that \<^verbatim>\<open>mergeJSON\<close> builds has one property whose value is \<^verbatim>\<open>undefined\<close>
  (\<^verbatim>\<open>opts = { bake: undefined }\<close>). \<open>present\<close> embeds a property read from a JSON value,
  and \<open>stringify\<close> is the value that the text \<^verbatim>\<open>JSON.stringify(result, null, 2)\<close>
  denotes: the properties whose value is undefined are left out.
\<close>

fun present :: "(string \<times> json) \<Rightarrow> (string \<times> json option)" where
  "present (k, v) = (k, Some v)"

fun defined_props :: "(string \<times> json option) list \<Rightarrow> props" where
  "defined_props [] = []"
| "defined_props ((k, None) # r) = defined_props r"
| "defined_props ((k, Some v) # r) = (k, v) # defined_props r"

definition stringify :: "(string \<times> json option) list \<Rightarrow> json" where
  "stringify result = JObj (defined_props result)"

text \<open>
  \<^verbatim>\<open>if (devs) opts.devDependencies = assign({}, devs, data.devDependencies)\<close>, and the same
  line for \<^verbatim>\<open>dependencies\<close>: the property that the line adds to \<^verbatim>\<open>opts\<close>, if any, with
  the value that \<^verbatim>\<open>JSON.stringify\<close> writes for it.
\<close>

definition merged_field :: "json \<Rightarrow> json \<Rightarrow> string \<Rightarrow> props" where
  "merged_field data json field =
     (let v = get json field in
      if truthy v
      then [(field,
             JObj (defined_props (assign [map present (own v), map present (own (get data field))])))]
      else [])"

text \<open>
  The body of the promise in \<^verbatim>\<open>mergeJSON(file, dest)\<close>, from the two parsed files to the
  value written: \<open>data\<close> is the destination's manifest and \<open>json\<close> the template's. Reading
  \<^verbatim>\<open>json.devDependencies\<close> throws when the template's manifest is \<^verbatim>\<open>null\<close>, and reading
  \<^verbatim>\<open>data.devDependencies\<close> or \<^verbatim>\<open>data.dependencies\<close>, which happens only under the guards
  \<^verbatim>\<open>if (devs)\<close> and \<^verbatim>\<open>if (deps)\<close>, throws when the destination's is.
\<close>

definition mergeJSON_value :: "json \<Rightarrow> json \<Rightarrow> error + json" where
  "mergeJSON_value data json =
     (if json = JNull then Inl TypeError
      else
        let devs = get json ''devDependencies'';
            deps = get json ''dependencies''
        in
          if data = JNull \<and> (truthy devs \<or> truthy deps) then Inl TypeError
          else
            let opts = (''bake'', None)
                  # map present (merged_field data json ''devDependencies''
                       @ merged_field data json ''dependencies'');
                result = assign
                  [map present (own (Some json)), map present (own (Some data)), opts]
            in Inr (stringify result))"


text \<open>
  The result of \<^verbatim>\<open>assign({}, a, b)\<close> and the properties of the merged manifest in closed
  form, which the proofs below work with. Of the first source everything is copied but
  \<^verbatim>\<open>__proto__\<close>, which reaches the setter; the same holds of the second source unless the
  first has put the setter out of reach.
\<close>

definition setter_hidden :: "props \<Rightarrow> bool" where
  "setter_hidden a =
     (case map_of a ''__proto__'' of Some v \<Rightarrow> hides_setter (Some v) | None \<Rightarrow> False)"

definition copied :: "props \<Rightarrow> props \<Rightarrow> props" where
  "copied a b = (if setter_hidden a then b else AList.delete ''__proto__'' b)"

definition merged_map :: "props \<Rightarrow> props \<Rightarrow> props" where
  "merged_map a b = overlay (overlay [] (AList.delete ''__proto__'' a)) (copied a b)"

definition merged_props :: "json \<Rightarrow> json \<Rightarrow> props" where
  "merged_props data json =
     overlay
       (overlay (overlay [] (AList.delete ''bake'' (AList.delete ''__proto__'' (own (Some json)))))
          (AList.delete ''bake'' (copied (own (Some json)) (own (Some data)))))
       (merged_field data json ''devDependencies'' @ merged_field data json ''dependencies'')"

text \<open>
  Scenario B of the specification: the destination depends on an older \<^verbatim>\<open>lodash\<close>, the
  template on a newer one and on \<^verbatim>\<open>chalk\<close>.
\<close>

definition scenario_B_existing :: json where
  "scenario_B_existing = JObj [(''dependencies'', JObj [(''lodash'', JStr ''^3.0.0'')])]"

definition scenario_B_template :: json where
  "scenario_B_template =
     JObj [(''dependencies'', JObj [(''lodash'', JStr ''^4.0.0''), (''chalk'', JStr ''^2.0.0'')])]"

definition scenario_B_merged :: json where
  "scenario_B_merged =
     JObj [(''dependencies'', JObj [(''lodash'', JStr ''^3.0.0''), (''chalk'', JStr ''^2.0.0'')])]"




section \<open>The file system\<close>

text \<open>
  A file holds either a JSON text, represented by the value it denotes, or any other text.
  A directory is the list of its entries. A path is the list of the names from the root
  down; where an entry name is repeated in a directory, the first entry is the one that
  the path reaches.
\<close>

datatype content = Text string | Json json

datatype node = File content | Dir "(string \<times> node) list"

fun lookup :: "node \<Rightarrow> path \<Rightarrow> node option"
  and lookup_in :: "(string \<times> node) list \<Rightarrow> string \<Rightarrow> path \<Rightarrow> node option" where
  "lookup n [] = Some n"
| "lookup (File c) (x # p) = None"
| "lookup (Dir es) (x # p) = lookup_in es x p"
| "lookup_in [] x p = None"
| "lookup_in ((y, n) # es) x p = (if x = y then lookup n p else lookup_in es x p)"

text \<open>
  Writing a file (\<^verbatim>\<open>fs.writeFile\<close>, and the stream of \<^verbatim>\<open>fs.createWriteStream\<close> once it is
  closed): the file is replaced, or created last in its directory. The write fails when
  the path is a directory, or when its parent is missing or is a file.
\<close>

fun write_at :: "path \<Rightarrow> node \<Rightarrow> path \<Rightarrow> content \<Rightarrow> error + node"
  and write_in :: "path \<Rightarrow> (string \<times> node) list \<Rightarrow> string \<Rightarrow> path \<Rightarrow> content
     \<Rightarrow> error + (string \<times> node) list" where
  "write_at full (File c) [] new = Inr (File new)"
| "write_at full (Dir es) [] new = Inl (EISDIR full)"
| "write_at full (File c) (x # p) new = Inl (ENOTDIR full)"
| "write_at full (Dir es) (x # p) new =
     (case write_in full es x p new of Inl e \<Rightarrow> Inl e | Inr es' \<Rightarrow> Inr (Dir es'))"
| "write_in full [] x p new = (if p = [] then Inr [(x, File new)] else Inl (ENOENT full))"
| "write_in full ((y, n) # es) x p new =
     (if x = y
      then (case write_at full n p new of Inl e \<Rightarrow> Inl e | Inr n' \<Rightarrow> Inr ((y, n') # es))
      else (case write_in full es x p new of Inl e \<Rightarrow> Inl e | Inr es' \<Rightarrow> Inr ((y, n) # es')))"

definition writeFile :: "node \<Rightarrow> path \<Rightarrow> content \<Rightarrow> error + node" where
  "writeFile fs p new = write_at p fs p new"

definition readdirSync :: "node \<Rightarrow> path \<Rightarrow> error + string list" where
  "readdirSync fs p =
     (case lookup fs p of
        Some (Dir es) \<Rightarrow> Inr (map fst es)
      | Some (File c) \<Rightarrow> Inl (ENOTDIR p)
      | None \<Rightarrow> Inl (ENOENT p))"

text \<open>
  \<^verbatim>\<open>require(p)\<close> of a JSON file: the parsed value, or an error for a text that is not JSON
  and for a path that is not a file. The module cache of \<^verbatim>\<open>require\<close> is left out: a
  manifest is read from the file system each time, which is the cached value as long as
  no file changes between two reads of it.
\<close>

definition require :: "node \<Rightarrow> path \<Rightarrow> error + json" where
  "require fs p =
     (case lookup fs p of
        Some (File (Json v)) \<Rightarrow> Inr v
      | Some (File (Text s)) \<Rightarrow> Inl (SyntaxError p)
      | _ \<Rightarrow> Inl (ModuleNotFound p))"

text \<open>
  \<^verbatim>\<open>path.basename\<close>, and \<^verbatim>\<open>existsSync\<close>, which the source imports as \<^verbatim>\<open>exists\<close>.
\<close>

definition basename :: "path \<Rightarrow> string" where
  "basename p = (if p = [] then [] else last p)"

definition exists :: "node \<Rightarrow> path \<Rightarrow> bool" where
  "exists fs p = (lookup fs p \<noteq> None)"

text \<open>
  Modelled from the spec: the helpers \<^verbatim>\<open>this.resolve\<close>, \<^verbatim>\<open>this.file\<close> and
  \<^verbatim>\<open>this.directory\<close> of the base class in \<^verbatim>\<open>lib/cli.js\<close>, which is not among the sources.
  The specification lists a directory's immediate entries under their own names, keeps the
  regular files when it expands a template, and keeps the subdirectories when it looks for
  templates. The helpers \<^verbatim>\<open>this.exists\<close> and \<^verbatim>\<open>this.basename\<close> of the same class are taken
  to be \<open>exists\<close> and \<open>basename\<close> above: the specification skips the roots that do not
  exist and names a template after the base name of its directory.
\<close>

definition resolve :: "path \<Rightarrow> string \<Rightarrow> path" where
  "resolve dir entry_name = dir @ [entry_name]"

definition file_entry :: "node \<Rightarrow> path \<Rightarrow> bool" where
  "file_entry fs p = (case lookup fs p of Some (File c) \<Rightarrow> True | _ \<Rightarrow> False)"

definition directory :: "node \<Rightarrow> path \<Rightarrow> bool" where
  "directory fs p = (case lookup fs p of Some (Dir es) \<Rightarrow> True | _ \<Rightarrow> False)"

section \<open>What a run can be seen to do\<close>

text \<open>
  Modelled from the spec: the collaborators of the base class in \<^verbatim>\<open>lib/cli.js\<close>, which is
  not among the sources. The specification gives them as logging at several levels,
  \<^verbatim>\<open>exec(command) -> outcome\<close>, and \<^verbatim>\<open>fail(message) -> terminates\<close>.

  A run leaves a trace of events. A log line keeps its level, its format string and the
  file, hook or template name that it is about (the padding that the base class computes
  is not tracked). Executing a hook's command spawns a process (\<open>Spawn\<close>, with the hook's
  key) and waits for it to exit (\<open>Exited\<close>, with whether it succeeded). The remaining events
  are the operations on the file system, the call of \<^verbatim>\<open>CLI.fail\<close> and the call of
  \<^verbatim>\<open>this.end\<close>.

  What a command does is a parameter of the model: a \<open>shell\<close> maps the command and the
  file system to whether the command succeeded and the file system that it leaves.
\<close>

datatype level = Info | Warning | Debug | Success | Verbose

datatype event =
    Log level string string
  | Spawn string command
  | Exited string bool
  | ReadDir path
  | Read path
  | Require path
  | Write path
  | Fail error
  | End

type_synonym shell = "command \<Rightarrow> node \<Rightarrow> bool \<times> node"

section \<open>Per-file operations\<close>

text \<open>
  Every per-file operation returns a promise. The synchronous part of the operation runs
  when the promise is created; what remains is the input and output that completes later:
  a copy to a fresh destination, nothing (the no-op stream of a skipped file), or the write
  of a merged manifest. \<open>Thrown\<close> is a promise whose executor threw, which is rejected from
  the start. \<open>Unhandled\<close> is a read error of the source: \<^verbatim>\<open>stream\<close> attaches its
  \<^verbatim>\<open>error\<close> handler to the output of \<^verbatim>\<open>pipe\<close> only, so an error of the input is an uncaught
  exception. \<open>Then p evs\<close> is \<^verbatim>\<open>p.then(...)\<close> for a callback that only logs \<open>evs\<close>.
\<close>

datatype io = Copy path content | Noop | WriteJson path json | Thrown error | Unhandled error

datatype promise = Pending string io | Then promise "event list"

datatype settled = Fulfilled | Rejected error | Uncaught error

definition stream :: "path \<Rightarrow> path \<Rightarrow> node \<Rightarrow> promise \<times> event list" where
  "stream src dest fs =
     (let existing = exists fs dest;
          filename = basename dest;
          io = (case lookup fs src of
                  Some (File c) \<Rightarrow> if existing then Noop else Copy dest c
                | Some (Dir es) \<Rightarrow> Unhandled (EISDIR src)
                | None \<Rightarrow> Unhandled (ENOENT src))
      in (Pending filename io,
          [Read src,
           if existing then Log Warning ''%s%salready exists, skipping'' filename
           else Log Info ''Streaming %s file content to %s'' filename]))"

definition mergeJSON :: "path \<Rightarrow> path \<Rightarrow> node \<Rightarrow> promise \<times> event list" where
  "mergeJSON src dest fs =
     (let name = basename src;
          warned = [Log Warning ''%s%salready exists, merging'' name, Require dest]
      in case require fs dest of
           Inl e \<Rightarrow> (Pending name (Thrown e), warned)
         | Inr data \<Rightarrow>
             (case require fs src of
                Inl e \<Rightarrow> (Pending name (Thrown e), warned @ [Require src])
              | Inr json \<Rightarrow>
                  (case mergeJSON_value data json of
                     Inl e \<Rightarrow> (Pending name (Thrown e), warned @ [Require src])
                   | Inr result \<Rightarrow>
                       (Pending name (WriteJson dest result),
                        warned @ [Require src, Log Verbose ''JSON:'' name]))))"

text \<open>The methods \<^verbatim>\<open>json(file, dest)\<close> and \<^verbatim>\<open>template(file, dest)\<close>.\<close>

definition json_file :: "path \<Rightarrow> path \<Rightarrow> node \<Rightarrow> promise \<times> event list" where
  "json_file src dest fs =
     (if exists fs dest
      then (case mergeJSON src dest fs of
              (p, evs) \<Rightarrow> (Then p [Log Debug ''Finished merging %s file'' (basename src)], evs))
      else stream src dest fs)"

definition template_file :: "path \<Rightarrow> path \<Rightarrow> node \<Rightarrow> promise \<times> event list" where
  "template_file src dest fs =
     (if basename src = ''package.json'' then json_file src dest fs else stream src dest fs)"

text \<open>
  The completion of a promise, on the file system of that moment: the outcome, the file
  system it leaves and the events.
\<close>

fun settle :: "promise \<Rightarrow> node \<Rightarrow> settled \<times> node \<times> event list" where
  "settle (Pending name Noop) fs = (Fulfilled, fs, [])"
| "settle (Pending name (Copy dest c)) fs =
     (case writeFile fs dest c of
        Inl e \<Rightarrow> (Rejected e, fs, [Write dest])
      | Inr fs' \<Rightarrow> (Fulfilled, fs', [Write dest, Log Success ''Finished streaming %s file'' name]))"
| "settle (Pending name (WriteJson dest v)) fs =
     (case writeFile fs dest (Json v) of
        Inl e \<Rightarrow> (Rejected e, fs, [Write dest])
      | Inr fs' \<Rightarrow> (Fulfilled, fs', [Write dest]))"
| "settle (Pending name (Thrown e)) fs = (Rejected e, fs, [])"
| "settle (Pending name (Unhandled e)) fs = (Uncaught e, fs, [])"
| "settle (Then p evs) fs =
     (case settle p fs of
        (Fulfilled, fs', evs') \<Rightarrow> (Fulfilled, fs', evs' @ evs)
      | r \<Rightarrow> r)"

section \<open>Expanding a template\<close>

record template =
  t_dir :: path
  t_name :: string
  t_json :: json

text \<open>
  The callback that \<^verbatim>\<open>expandTemplateDirectory\<close> maps over the files: the destination is
  the file's base name under the working directory, and the promise logs two lines once
  the operation is done.
\<close>

definition finished :: "string \<Rightarrow> event list" where
  "finished name = [Log Info ''%s%s-> %s'' name, Log Debug ''Finished streaming %s content'' name]"

definition expand_file :: "path \<Rightarrow> node \<Rightarrow> path \<Rightarrow> promise \<times> event list" where
  "expand_file cwd fs src =
     (case template_file src (resolve cwd (basename src)) fs of
        (p, evs) \<Rightarrow> (Then p (finished (basename src)), evs))"

text \<open>
  \<^verbatim>\<open>expandTemplateDirectory(template)\<close> returns the template itself when its directory does
  not exist, and otherwise a copy with the promises of its files. \<^verbatim>\<open>readdirSync\<close> throws
  when the directory is a file.
\<close>

definition expandTemplateDirectory ::
  "template \<Rightarrow> path \<Rightarrow> node \<Rightarrow> (error + template \<times> promise list option) \<times> event list" where
  "expandTemplateDirectory t cwd fs =
     (let dir = t_dir t in
      if \<not> exists fs dir then (Inr (t, None), [])
      else case readdirSync fs dir of
             Inl e \<Rightarrow> (Inl e, [ReadDir dir])
           | Inr names \<Rightarrow>
               let files = filter (file_entry fs) (map (resolve dir) names);
                   launched = map (expand_file cwd fs) files
               in (Inr (t, Some (map fst launched)), ReadDir dir # concat (map snd launched)))"

text \<open>
  \<^verbatim>\<open>Promise.all\<close>. The operations are in flight together and complete in any order: the
  schedule \<open>sched\<close> names, at every step, which of the promises still pending completes
  next (its entry modulo their number, and the first of them once the schedule has run
  out), so every list of numbers is a schedule and every order of completion has one.
  The first promise that does not fulfil ends the wait. A promise rejected from the start
  ends it before any operation completes, and so does a value that is not a list:
  \<^verbatim>\<open>Promise.all(undefined)\<close> is rejected with a \<^verbatim>\<open>TypeError\<close>.
\<close>

fun thrown :: "promise \<Rightarrow> error option" where
  "thrown (Pending name (Thrown e)) = Some e"
| "thrown (Pending name io) = None"
| "thrown (Then p evs) = thrown p"

function settle_all :: "nat list \<Rightarrow> promise list \<Rightarrow> node \<Rightarrow> settled \<times> node \<times> event list" where
  "settle_all sched [] fs = (Fulfilled, fs, [])"
| "settle_all sched (p # ps) fs =
     (let j = (case sched of [] \<Rightarrow> 0 | i # is \<Rightarrow> i mod Suc (length ps));
          rest = take j (p # ps) @ drop (Suc j) (p # ps)
      in case settle ((p # ps) ! j) fs of
           (Fulfilled, fs', evs) \<Rightarrow>
             (case settle_all (tl sched) rest fs' of (r, fs'', evs') \<Rightarrow> (r, fs'', evs @ evs'))
         | (r, fs', evs) \<Rightarrow> (r, fs', evs))"
  by pat_completeness auto
termination
  by (relation "measure (\<lambda>(sched, ps, fs). length ps)") (auto split: list.splits)

definition Promise_all ::
  "nat list \<Rightarrow> promise list option \<Rightarrow> node \<Rightarrow> settled \<times> node \<times> event list" where
  "Promise_all sched promises fs =
     (case promises of
        None \<Rightarrow> (Rejected TypeError, fs, [])
      | Some ps \<Rightarrow>
          (case List.map_filter thrown ps of
             e # es \<Rightarrow> (Rejected e, fs, [])
           | [] \<Rightarrow> settle_all sched ps fs))"

section \<open>Hooks\<close>

text \<open>
  \<^verbatim>\<open>script(name)\<close> looks the hook up in \<^verbatim>\<open>this.scripts || {}\<close> with
  \<^verbatim>\<open>scripts[name]\<close>, a read through the prototype chain; a value that is missing or
  falsy is a promise resolved at once. Anything else is logged and given to
  \<^verbatim>\<open>this.exec\<close>.
\<close>

definition script :: "shell \<Rightarrow> json \<Rightarrow> string \<Rightarrow> node \<Rightarrow> error option \<times> node \<times> event list" where
  "script sh scripts name fs =
     (case read_property (or_empty (Some scripts)) name of
        None \<Rightarrow> (None, fs, [])
      | Some cmd \<Rightarrow>
          if \<not> truthy_command cmd then (None, fs, [])
          else
            let (ok, fs') = sh cmd fs
            in (if ok then None else Some (ScriptExecutionError cmd), fs',
                [Log Info ''%s script'' name, Spawn name cmd, Exited name ok]))"

text \<open>
  \<^verbatim>\<open>invoke(name)\<close> chains the three hooks with \<^verbatim>\<open>then\<close>: a hook runs when the one before
  it has resolved, and a rejection skips the rest.
\<close>

definition invoke :: "shell \<Rightarrow> json \<Rightarrow> string \<Rightarrow> node \<Rightarrow> error option \<times> node \<times> event list" where
  "invoke sh scripts name fs =
     (case script sh scripts (''pre'' @ name) fs of
        (Some e, fs1, evs1) \<Rightarrow> (Some e, fs1, Log Debug ''Invoke %s'' name # evs1)
      | (None, fs1, evs1) \<Rightarrow>
          (case script sh scripts name fs1 of
             (Some e, fs2, evs2) \<Rightarrow> (Some e, fs2, Log Debug ''Invoke %s'' name # evs1 @ evs2)
           | (None, fs2, evs2) \<Rightarrow>
               (case script sh scripts (''post'' @ name) fs2 of
                  (r, fs3, evs3) \<Rightarrow> (r, fs3, Log Debug ''Invoke %s'' name # evs1 @ evs2 @ evs3))))"

section \<open>The run\<close>

text \<open>
  How a run ends. \<open>Resolved\<close>: the promise of \<^verbatim>\<open>run\<close> is fulfilled. \<open>Failed e\<close>:
  \<^verbatim>\<open>CLI.fail\<close> has been called with \<open>e\<close>, which reports the failure and terminates the
  process. \<open>Escaped e\<close>: the promise of \<^verbatim>\<open>run\<close> is rejected with \<open>e\<close> and nothing in
  \<^verbatim>\<open>run\<close> or \<^verbatim>\<open>init\<close> handles the rejection. \<open>Crashed e\<close>: an uncaught exception.
\<close>

datatype outcome = Resolved | Escaped error | Failed error | Crashed error

text \<open>
  \<^verbatim>\<open>this.config = template.json ? template.json.bake || {} : {}\<close> and
  \<^verbatim>\<open>this.scripts = this.config.scripts || {}\<close>.
\<close>

definition scripts_of :: "template \<Rightarrow> json" where
  "scripts_of t =
     (let config = (if truthy (Some (t_json t)) then or_empty (get (t_json t) ''bake'')
                    else JObj [])
      in or_empty (get config ''scripts''))"

text \<open>
  The default of the parameter in \<^verbatim>\<open>run(name = 'default', args)\<close>, and the search
  \<^verbatim>\<open>this.templates.find(...)\<close>.
\<close>

definition name_or_default :: "string option \<Rightarrow> string" where
  "name_or_default name = (case name of None \<Rightarrow> ''default'' | Some n \<Rightarrow> n)"

definition find_template :: "template list \<Rightarrow> string option \<Rightarrow> template option" where
  "find_template templates name = List.find (\<lambda>t. t_name t = name_or_default name) templates"

text \<open>
  \<^verbatim>\<open>run(name, args)\<close>. The handler \<^verbatim>\<open>.catch(CLI.fail)\<close> is attached inside the callback of
  \<^verbatim>\<open>this.invoke('start').then(...)\<close>, to the chain of \<^verbatim>\<open>Promise.all\<close> and the install phase:
  a rejection of the start phase, and an exception that \<^verbatim>\<open>expandTemplateDirectory\<close> throws
  in the callback, reject the promise that \<^verbatim>\<open>run\<close> returns without reaching it.
\<close>

definition run ::
  "shell \<Rightarrow> nat list \<Rightarrow> template list \<Rightarrow> path \<Rightarrow> string option \<Rightarrow> string list \<Rightarrow> node
     \<Rightarrow> outcome \<times> node \<times> event list" where
  "run sh sched templates cwd name args fs =
     (case find_template templates name of
        None \<Rightarrow>
          (Failed (TemplateNotFound (name_or_default name)), fs,
           [Fail (TemplateNotFound (name_or_default name))])
      | Some t \<Rightarrow>
          let scripts = scripts_of t;
              running = [Log Info ''Running %s template'' (name_or_default name)]
          in case invoke sh scripts ''start'' fs of
               (Some e, fs1, evs1) \<Rightarrow> (Escaped e, fs1, running @ evs1)
             | (None, fs1, evs1) \<Rightarrow>
                 (case expandTemplateDirectory t cwd fs1 of
                    (Inl e, evs2) \<Rightarrow> (Escaped e, fs1, running @ evs1 @ evs2)
                  | (Inr (d, promises), evs2) \<Rightarrow>
                      (case Promise_all sched promises fs1 of
                         (Rejected e, fs2, evs3) \<Rightarrow>
                           (Failed e, fs2, running @ evs1 @ evs2 @ evs3 @ [Fail e])
                       | (Uncaught e, fs2, evs3) \<Rightarrow>
                           (Crashed e, fs2, running @ evs1 @ evs2 @ evs3)
                       | (Fulfilled, fs2, evs3) \<Rightarrow>
                           (case invoke sh scripts ''install'' fs2 of
                              (Some e, fs3, evs4) \<Rightarrow>
                                (Failed e, fs3, running @ evs1 @ evs2 @ evs3 @ evs4 @ [Fail e])
                            | (None, fs3, evs4) \<Rightarrow>
                                (Resolved, fs3, running @ evs1 @ evs2 @ evs3 @ evs4)))))"

text \<open>
  \<^verbatim>\<open>init()\<close>, with the parsed arguments as parameters: the help flag and the positional
  arguments, the first of which is the template's name.
\<close>

definition init ::
  "shell \<Rightarrow> nat list \<Rightarrow> template list \<Rightarrow> path \<Rightarrow> bool \<Rightarrow> string list \<Rightarrow> node
     \<Rightarrow> outcome \<times> node \<times> event list" where
  "init sh sched templates cwd help argv fs =
     (if help then (Resolved, fs, [Log Debug ''Heeeeeelp'' []])
      else
        let name = (case argv of [] \<Rightarrow> None | a # as \<Rightarrow> Some a);
            args = tl argv
        in case run sh sched templates cwd name args fs of
             (Resolved, fs', evs) \<Rightarrow> (Resolved, fs', evs @ [End])
           | r \<Rightarrow> r)"

section \<open>Discovering the templates\<close>

text \<open>A \<^verbatim>\<open>map\<close> whose callback may throw: the first exception ends it.\<close>

fun traverse :: "('a \<Rightarrow> error + 'b) \<Rightarrow> 'a list \<Rightarrow> error + 'b list" where
  "traverse f [] = Inr []"
| "traverse f (x # xs) =
     (case f x of
        Inl e \<Rightarrow> Inl e
      | Inr y \<Rightarrow> (case traverse f xs of Inl e \<Rightarrow> Inl e | Inr ys \<Rightarrow> Inr (y # ys)))"

definition loadTemplatesFrom :: "node \<Rightarrow> path \<Rightarrow> error + path list" where
  "loadTemplatesFrom fs dir =
     (case readdirSync fs dir of
        Inl e \<Rightarrow> Inl e
      | Inr names \<Rightarrow> Inr (filter (directory fs) (map (resolve dir) names)))"

text \<open>The last \<^verbatim>\<open>map\<close> of \<^verbatim>\<open>loadTemplates\<close>, from a template's directory to its record.\<close>

definition load_template :: "node \<Rightarrow> path \<Rightarrow> error + template" where
  "load_template fs dir =
     (let manifest = dir @ [''package.json''] in
      if exists fs manifest
      then (case require fs manifest of
              Inl e \<Rightarrow> Inl e
            | Inr v \<Rightarrow> Inr \<lparr>t_dir = dir, t_name = basename dir, t_json = v\<rparr>)
      else Inr \<lparr>t_dir = dir, t_name = basename dir, t_json = JObj []\<rparr>)"

text \<open>
  \<^verbatim>\<open>loadTemplates()\<close> over the search roots \<open>dirs\<close> (the getter \<^verbatim>\<open>directories\<close>), in their
  order of priority. Its debug lines are left out.
\<close>

definition loadTemplates :: "node \<Rightarrow> path list \<Rightarrow> error + template list" where
  "loadTemplates fs dirs =
     (case traverse (loadTemplatesFrom fs) (filter (exists fs) dirs) of
        Inl e \<Rightarrow> Inl e
      | Inr found \<Rightarrow> traverse (load_template fs) (concat found))"

section \<open>The vocabulary of the claims\<close>






text \<open>
  The specification's reading of resolution, to compare \<^verbatim>\<open>loadTemplates\<close> and the search
  of \<^verbatim>\<open>run\<close> with: the first root, in the order of priority, that has a subdirectory of
  the name, and the template that this subdirectory is.
\<close>

definition spec_resolve :: "node \<Rightarrow> path list \<Rightarrow> string \<Rightarrow> template option" where
  "spec_resolve fs dirs n =
     (case List.find (\<lambda>d. directory fs (resolve d n)) dirs of
        None \<Rightarrow> None
      | Some d \<Rightarrow> (case load_template fs (resolve d n) of Inl e \<Rightarrow> None | Inr t \<Rightarrow> Some t))"

text \<open>
  The stages of a run. Stage 0 is the start phase: the line that \<^verbatim>\<open>invoke\<close> logs when it is
  called, and for every hook the line that announces it and its process, spawned and
  exited. Stage 1 is file expansion: the operations on the file system, the line that an
  operation logs when it is launched and the line logged when it is done. Stage 2 is the
  install phase, with the events that stage 0 has of the start phase. The other events
  have no stage.
\<close>

definition hook_stage :: "string \<Rightarrow> nat option" where
  "hook_stage k =
     (if k \<in> set [''prestart'', ''start'', ''poststart''] then Some 0
      else if k \<in> set [''preinstall'', ''install'', ''postinstall''] then Some 2
      else None)"

fun launches :: "event \<Rightarrow> bool" where
  "launches (Log Warning fmt s) =
     (fmt = ''%s%salready exists, skipping'' \<or> fmt = ''%s%salready exists, merging'')"
| "launches (Log Info fmt s) = (fmt = ''Streaming %s file content to %s'')"
| "launches e = False"

fun completes :: "event \<Rightarrow> bool" where
  "completes (Log Debug fmt s) = (fmt = ''Finished streaming %s content'')"
| "completes e = False"

text \<open>The calls of \<^verbatim>\<open>CLI.fail\<close>.\<close>

fun is_fail :: "event \<Rightarrow> bool" where
  "is_fail (Fail e) = True"
| "is_fail e = False"

fun stage :: "event \<Rightarrow> nat option" where
  "stage (Spawn k c) = hook_stage k"
| "stage (Exited k ok) = hook_stage k"
| "stage (ReadDir p) = Some 1"
| "stage (Read p) = Some 1"
| "stage (Require p) = Some 1"
| "stage (Write p) = Some 1"
| "stage (Log l fmt s) =
     (if launches (Log l fmt s) \<or> completes (Log l fmt s) then Some 1
      else if fmt = ''Invoke %s'' \<or> fmt = ''%s script'' then hook_stage s
      else None)"
| "stage (Fail e) = None"
| "stage End = None"

definition stages :: "event list \<Rightarrow> nat list" where
  "stages evs = List.map_filter stage evs"

text \<open>
  The lines that a promise logs when it is fulfilled, and the promises that
  \<^verbatim>\<open>expandTemplateDirectory\<close> makes: among those lines, exactly one says that the
  operation is done.
\<close>

fun then_events :: "promise \<Rightarrow> event list" where
  "then_events (Pending name io) = []"
| "then_events (Then p evs) = then_events p @ evs"

definition file_promise :: "promise \<Rightarrow> bool" where
  "file_promise p =
     (set (stages (then_events p)) \<subseteq> {1} \<and> filter launches (then_events p) = []
      \<and> filter is_fail (then_events p) = []
      \<and> length (filter completes (then_events p)) = 1)"

section \<open>Example runs\<close>

text \<open>
  Scenario A of the specification: the template \<^verbatim>\<open>node\<close>, with a \<^verbatim>\<open>Makefile\<close>, a manifest
  that configures an install hook and a script, under the bundled root, and an empty
  working directory. The search roots are the three of the getter \<^verbatim>\<open>directories\<close>, the
  first two of which do not exist here.
\<close>

definition node_manifest :: json where
  "node_manifest = JObj [(''bake'', JObj [(''scripts'', JObj [(''install'', JStr ''echo done'')])])]"

definition node_template :: node where
  "node_template = Dir
     [(''Makefile'', File (Text ''all:'')),
      (''package.json'', File (Json node_manifest)),
      (''utils.sh'', File (Text ''#!/bin/sh''))]"

definition demo_fs :: node where
  "demo_fs = Dir [(''lib'', Dir [(''node'', node_template)]), (''work'', Dir [])]"

definition demo_roots :: "path list" where
  "demo_roots = [[''cfg''], [''home''], [''lib'']]"

definition demo_templates :: "template list" where
  "demo_templates = [\<lparr>t_dir = [''lib'', ''node''], t_name = ''node'', t_json = node_manifest\<rparr>]"

text \<open>A shell in which every command succeeds but \<^verbatim>\<open>exit 1\<close>, and none touches a file.\<close>

definition demo_shell :: shell where
  "demo_shell cmd fs = (cmd \<noteq> Own (JStr ''exit 1''), fs)"

text \<open>
  The trace of the run of Scenario A in which the per-file operations complete in the
  order \<^verbatim>\<open>utils.sh\<close>, \<^verbatim>\<open>Makefile\<close>, \<^verbatim>\<open>package.json\<close>.
\<close>

definition demo_trace :: "event list" where
  "demo_trace = snd (snd (run demo_shell [2, 0] demo_templates [''work''] (Some ''node'') [] demo_fs))"

text \<open>
  Variations: a working directory that already has a \<^verbatim>\<open>Makefile\<close>; a second template
  \<^verbatim>\<open>node\<close> under the root of the user's home; a set of start hooks of which the main one
  is empty; a template whose start hook fails; and one whose install hook fails, for a
  working directory that has an empty manifest.
\<close>

definition busy_fs :: node where
  "busy_fs = Dir
     [(''lib'', Dir [(''node'', node_template)]),
      (''work'', Dir [(''Makefile'', File (Text ''mine''))])]"

definition shadow_fs :: node where
  "shadow_fs = Dir
     [(''home'', Dir [(''node'', Dir [(''Makefile'', File (Text ''home''))])]),
      (''lib'', Dir [(''node'', node_template)])]"


definition bad_manifest :: json where
  "bad_manifest = JObj [(''bake'', JObj [(''scripts'', JObj [(''start'', JStr ''exit 1'')])])]"

definition bad_fs :: node where
  "bad_fs = Dir
     [(''lib'', Dir [(''bad'', Dir [(''package.json'', File (Json bad_manifest))])]),
      (''work'', Dir [])]"

definition bad_templates :: "template list" where
  "bad_templates = [\<lparr>t_dir = [''lib'', ''bad''], t_name = ''bad'', t_json = bad_manifest\<rparr>]"

definition late_manifest :: json where
  "late_manifest = JObj [(''bake'', JObj [(''scripts'', JObj [(''install'', JStr ''exit 1'')])])]"

definition late_fs :: node where
  "late_fs = Dir
     [(''lib'', Dir [(''late'', Dir [(''package.json'', File (Json late_manifest))])]),
      (''work'', Dir [(''package.json'', File (Json (JObj [])))])]"

definition late_templates :: "template list" where
  "late_templates = [\<lparr>t_dir = [''lib'', ''late''], t_name = ''late'', t_json = late_manifest\<rparr>]"

section \<open>Properties of assignment\<close>

lemma overlay_Nil [simp]: "overlay t [] = t"
  by (simp add: overlay_def)

lemma overlay_Cons [simp]: "overlay t ((k, v) # s) = overlay (AList.update k v t) s"
  by (simp add: overlay_def)

lemma overlay_append: "overlay t (s1 @ s2) = overlay (overlay t s1) s2"
  by (simp add: overlay_def)

text \<open>A later source wins, and within a source a later occurrence of a key.\<close>

lemma map_of_overlay: "map_of (overlay t s) = map_of t ++ map_of (rev s)"
proof (induction s arbitrary: t)
  case Nil
  show ?case by simp
next
  case (Cons p s)
  obtain k v where p: "p = (k, v)" by (cases p)
  show ?case
    by (simp add: p Cons.IH update_conv' map_add_upd_left fun_eq_iff map_add_def
        split: option.splits)
qed

lemma distinct_overlay: "distinct (map fst t) \<Longrightarrow> distinct (map fst (overlay t s))"
  by (induction s arbitrary: t) (auto simp: distinct_update)

lemma keys_overlay: "fst ` set (overlay t s) = fst ` set t \<union> fst ` set s"
proof (induction s arbitrary: t)
  case Nil
  show ?case by simp
next
  case (Cons p s)
  obtain k v where p: "p = (k, v)" by (cases p)
  show ?case by (auto simp: p Cons.IH dom_update)
qed

lemma map_of_rev_distinct: "distinct (map fst xs) \<Longrightarrow> map_of (rev xs) = map_of xs"
proof (rule ext)
  fix x
  assume d: "distinct (map fst xs)"
  then have d': "distinct (map fst (rev xs))"
    by (simp add: rev_map [symmetric])
  show "map_of (rev xs) x = map_of xs x"
  proof (cases "map_of xs x")
    case None
    then have "map_of (rev xs) x = None"
      by (simp add: map_of_eq_None_iff)
    with None show ?thesis by simp
  next
    case (Some y)
    then have "(x, y) \<in> set (rev xs)" using d by simp
    then show ?thesis using d' Some by simp
  qed
qed

lemma update_fresh: "k \<notin> fst ` set t \<Longrightarrow> AList.update k v t = t @ [(k, v)]"
  by (induction t) auto

lemma update_at: "k \<notin> fst ` set d \<Longrightarrow> AList.update k v (d @ (k, w) # t) = d @ (k, v) # t"
  by (induction d) auto

text \<open>New keys are appended in the order of the source.\<close>

lemma overlay_fresh:
  "distinct (map fst s) \<Longrightarrow> fst ` set s \<inter> fst ` set t = {} \<Longrightarrow> overlay t s = t @ s"
proof (induction s arbitrary: t)
  case Nil
  show ?case by simp
next
  case (Cons p s)
  obtain k v where p: "p = (k, v)" by (cases p)
  have "overlay (t @ [(k, v)]) s = (t @ [(k, v)]) @ s"
    using Cons.prems by (intro Cons.IH) (auto simp: p)
  moreover have "AList.update k v t = t @ [(k, v)]"
    using Cons.prems by (intro update_fresh) (auto simp: p)
  ultimately show ?case by (simp add: p)
qed

text \<open>A source with the keys of the target, in the same order, replaces every value.\<close>

lemma overlay_same_keys:
  "map fst t = map fst s \<Longrightarrow> distinct (map fst (d @ s)) \<Longrightarrow> overlay (d @ t) s = d @ s"
proof (induction s arbitrary: t d)
  case Nil
  then show ?case by simp
next
  case (Cons p s)
  obtain k v where p: "p = (k, v)" by (cases p)
  from Cons.prems(1) obtain w t' where t: "t = (k, w) # t'" and t': "map fst t' = map fst s"
    by (cases t) (auto simp: p)
  have "AList.update k v (d @ (k, w) # t') = d @ (k, v) # t'"
    using Cons.prems(2) by (intro update_at) (auto simp: p)
  moreover have "overlay ((d @ [(k, v)]) @ t') s = (d @ [(k, v)]) @ s"
    using Cons.prems(2) t' by (intro Cons.IH) (auto simp: p)
  ultimately show ?case by (simp add: p t)
qed

lemma length_update_ge: "length t \<le> length (AList.update k v t)"
  by (induction t) auto

lemma take_keys_update: "take (length t) (map fst (AList.update k v t)) = map fst t"
  by (induction t) auto

text \<open>Assignment keeps the keys of the target, in their order, in front.\<close>

lemma take_keys_overlay: "take (length t) (map fst (overlay t s)) = map fst t"
proof (induction s arbitrary: t)
  case Nil
  show ?case by simp
next
  case (Cons p s)
  obtain k v where p: "p = (k, v)" by (cases p)
  let ?u = "AList.update k v t"
  have "take (length t) (map fst (overlay ?u s))
      = take (length t) (take (length ?u) (map fst (overlay ?u s)))"
    by (simp add: min_absorb1 length_update_ge)
  also have "\<dots> = take (length t) (map fst ?u)"
    by (simp only: Cons.IH)
  also have "\<dots> = map fst t"
    by (rule take_keys_update)
  finally show ?case by (simp add: p)
qed

text \<open>
  Assigning \<open>r\<close> to a target whose keys are the first keys of \<open>r\<close> gives \<open>r\<close> back:
  the values in front are replaced in place and the other properties are appended.
\<close>

lemma overlay_absorb:
  assumes "distinct (map fst r)" and "take (length t) (map fst r) = map fst t"
  shows "overlay t r = r"
proof -
  let ?n = "length t"
  have keys: "map fst t = map fst (take ?n r)"
    using assms(2) by (simp add: take_map)
  have d: "distinct (map fst (take ?n r @ drop ?n r))"
    using assms(1) by simp
  have "overlay t (take ?n r) = take ?n r"
    using overlay_same_keys [of t "take ?n r" "[]"] keys assms(1)
    by (simp add: distinct_take take_map [symmetric] del: take_map)
  moreover have "overlay (take ?n r) (drop ?n r) = take ?n r @ drop ?n r"
    using d by (intro overlay_fresh) (auto simp del: append_take_drop_id)
  ultimately have "overlay (overlay t (take ?n r)) (drop ?n r) = take ?n r @ drop ?n r"
    by simp
  then have "overlay t (take ?n r @ drop ?n r) = take ?n r @ drop ?n r"
    by (simp only: overlay_append)
  then show ?thesis by simp
qed

lemma overlay_idem: "overlay (overlay [] a) (overlay (overlay [] a) b) = overlay (overlay [] a) b"
  by (rule overlay_absorb) (simp_all add: distinct_overlay take_keys_overlay)

lemma overlay_known: "(\<And>k v. (k, v) \<in> set s \<Longrightarrow> map_of t k = Some v) \<Longrightarrow> overlay t s = t"
proof (induction s)
  case Nil
  show ?case by simp
next
  case (Cons p s)
  obtain k v where p: "p = (k, v)" by (cases p)
  have "AList.update k v t = t"
    using Cons.prems [of k v] by (intro update_triv) (simp add: p)
  then show ?case using Cons by (simp add: p)
qed

lemma overlay_again:
  assumes "distinct (map fst s)"
  shows "overlay (overlay t s) s = overlay t s"
proof (rule overlay_known)
  fix k v
  assume kv: "(k, v) \<in> set s"
  have "distinct (map fst (rev s))" using assms by (simp add: rev_map [symmetric])
  with kv have "map_of (rev s) k = Some v" by simp
  then show "map_of (overlay t s) k = Some v"
    by (simp add: map_of_overlay)
qed

lemma delete_overlay:
  "AList.delete b (overlay t s) = overlay (AList.delete b t) (AList.delete b s)"
proof (induction s arbitrary: t)
  case Nil
  show ?case by simp
next
  case (Cons p s)
  obtain k v where p: "p = (k, v)" by (cases p)
  show ?case
    by (cases "k = b") (simp_all add: p Cons.IH delete_update_same delete_update)
qed

lemma set_update_subset: "set (AList.update k v t) \<subseteq> insert (k, v) (set t)"
  by (induction t) auto

lemma set_overlay_subset: "set (overlay t s) \<subseteq> set t \<union> set s"
proof (induction s arbitrary: t)
  case Nil
  show ?case by simp
next
  case (Cons p s)
  obtain k v where p: "p = (k, v)" by (cases p)
  show ?case
    using Cons.IH [of "AList.update k v t"] set_update_subset [of k v t] by (auto simp: p)
qed

lemma set_update_distinct:
  "distinct (map fst t) \<Longrightarrow> (k, w) \<in> set (AList.update k v t) \<Longrightarrow> w = v"
  by (induction t) (auto simp: rev_image_eqI split: if_splits)

lemma no_key_delete: "k \<notin> fst ` set xs \<Longrightarrow> k \<notin> fst ` set (AList.delete b xs)"
  by (induction xs) auto

lemma map_of_rev_delete: "k \<noteq> b \<Longrightarrow> map_of (rev (AList.delete b xs)) k = map_of (rev xs) k"
  by (induction xs) (auto simp: map_add_def split: option.splits)

lemma overlay_Nil_distinct: "distinct (map fst s) \<Longrightarrow> overlay [] s = s"
  using overlay_fresh [of s "[]"] by simp

lemma assign1_Nil [simp]: "assign1 t [] = t"
  by (simp add: assign1_def)

lemma assign1_Cons [simp]: "assign1 t (p # s) = assign1 (set_prop p t) s"
  by (simp add: assign1_def)

text \<open>
  Assignment defines every property of the source when the setter is out of reach, when
  the target has a property \<^verbatim>\<open>__proto__\<close>, and when the source has none.
\<close>

lemma assign1_plain:
  "h \<or> ''__proto__'' \<in> fst ` set t \<or> ''__proto__'' \<notin> fst ` set s
     \<Longrightarrow> assign1 (t, h) s = (overlay t s, h)"
proof (induction s arbitrary: t)
  case Nil
  show ?case by simp
next
  case (Cons p s)
  obtain k v where p: "p = (k, v)" by (cases p)
  have step: "set_prop (k, v) (t, h) = (AList.update k v t, h)"
    using Cons.prems by (auto simp: p)
  have "h \<or> ''__proto__'' \<in> fst ` set (AList.update k v t) \<or> ''__proto__'' \<notin> fst ` set s"
    using Cons.prems by (auto simp: p dom_update)
  then have "assign1 (AList.update k v t, h) s = (overlay (AList.update k v t) s, h)"
    by (rule Cons.IH)
  then show ?case by (simp add: p step del: set_prop.simps)
qed

text \<open>
  Otherwise the property \<^verbatim>\<open>__proto__\<close> of the source reaches the setter, and the others
  are defined.
\<close>

lemma assign1_setter:
  "distinct (map fst s) \<Longrightarrow> ''__proto__'' \<notin> fst ` set t
     \<Longrightarrow> assign1 (t, False) s
         = (overlay t (AList.delete ''__proto__'' s),
            case map_of s ''__proto__'' of Some v \<Rightarrow> hides_setter v | None \<Rightarrow> False)"
proof (induction s arbitrary: t)
  case Nil
  show ?case by simp
next
  case (Cons p s)
  obtain k v where p: "p = (k, v)" by (cases p)
  show ?case
  proof (cases "k = ''__proto__''")
    case True
    have no: "''__proto__'' \<notin> fst ` set s"
      using Cons.prems(1) by (simp add: p True)
    have "assign1 (t, hides_setter v) s = (overlay t s, hides_setter v)"
      using no by (intro assign1_plain) simp
    moreover have "AList.delete ''__proto__'' s = s"
      using no by (rule delete_id)
    ultimately show ?thesis
      using Cons.prems(2) by (simp add: p True)
  next
    case False
    have "''__proto__'' \<notin> fst ` set (AList.update k v t)"
      using Cons.prems(2) False by (auto simp: dom_update)
    moreover have "distinct (map fst s)"
      using Cons.prems(1) by simp
    ultimately have "assign1 (AList.update k v t, False) s
        = (overlay (AList.update k v t) (AList.delete ''__proto__'' s),
           case map_of s ''__proto__'' of Some v \<Rightarrow> hides_setter v | None \<Rightarrow> False)"
      by (intro Cons.IH)
    then show ?thesis
      using False by (simp add: p)
  qed
qed

lemma assign1_source:
  assumes "distinct (map fst s) \<or> ''__proto__'' \<notin> fst ` set s"
    and "''__proto__'' \<notin> fst ` set t"
  shows "assign1 (t, False) s
         = (overlay t (AList.delete ''__proto__'' s),
            case map_of s ''__proto__'' of Some v \<Rightarrow> hides_setter v | None \<Rightarrow> False)"
proof (cases "''__proto__'' \<in> fst ` set s")
  case True
  with assms(1) have "distinct (map fst s)" by blast
  then show ?thesis using assms(2) by (rule assign1_setter)
next
  case False
  then have "assign1 (t, False) s = (overlay t s, False)"
    by (intro assign1_plain) simp
  moreover have "AList.delete ''__proto__'' s = s"
    using False by (rule delete_id)
  moreover have "map_of s ''__proto__'' = None"
    using False by (simp add: map_of_eq_None_iff)
  ultimately show ?thesis by simp
qed

lemma fst_assign1_plain:
  "''__proto__'' \<notin> fst ` set s \<Longrightarrow> fst (assign1 x s) = overlay (fst x) s"
  by (cases x) (simp add: assign1_plain)

text \<open>No index is the key \<^verbatim>\<open>__proto__\<close>.\<close>

lemma last_string_of_nat: "last (string_of_nat n) = char_of (48 + n mod 10)"
  by (subst string_of_nat.simps) simp

lemma string_of_nat_not_proto: "string_of_nat n \<noteq> ''__proto__''"
proof
  assume "string_of_nat n = ''__proto__''"
  then have "last (string_of_nat n) = CHR ''_''" by simp
  then have "char_of (48 + n mod 10) = CHR ''_''"
    by (simp only: last_string_of_nat)
  then have "of_char (char_of (48 + n mod 10)) = (of_char CHR ''_'' :: nat)"
    by simp
  then show False by simp
qed

lemma own_source: "distinct (map fst (own v)) \<or> ''__proto__'' \<notin> fst ` set (own v)"
proof (cases v)
  case None
  then show ?thesis by simp
next
  case (Some j)
  show ?thesis
  proof (cases j)
    case (JObj kvs)
    then show ?thesis by (simp add: Some distinct_overlay)
  next
    case (JArr xs)
    have "fst ` set (own v) \<subseteq> range string_of_nat"
      by (auto simp: Some JArr dest!: set_zip_leftD)
    then show ?thesis using string_of_nat_not_proto by (metis imageE subsetD)
  next
    case (JStr cs)
    have "fst ` set (own v) \<subseteq> range string_of_nat"
      by (auto simp: Some JStr dest!: set_zip_leftD)
    then show ?thesis using string_of_nat_not_proto by (metis imageE subsetD)
  qed (simp_all add: Some)
qed

section \<open>Properties of the merge\<close>

lemma present_update: "map present (AList.update k v t) = AList.update k (Some v) (map present t)"
  by (induction t) auto

lemma present_overlay: "map present (overlay t s) = overlay (map present t) (map present s)"
proof (induction s arbitrary: t)
  case Nil
  show ?case by simp
next
  case (Cons p s)
  obtain k v where p: "p = (k, v)" by (cases p)
  show ?case
    by (simp add: p Cons.IH present_update)
qed

lemma present_delete: "map present (AList.delete b t) = AList.delete b (map present t)"
  by (induction t) auto

lemma defined_props_present [simp]: "defined_props (map present xs) = xs"
  by (induction xs) auto

lemma defined_props_delete:
  "(\<And>v. (b, v) \<in> set z \<Longrightarrow> v = None) \<Longrightarrow> defined_props (AList.delete b z) = defined_props z"
  by (induction z rule: defined_props.induct) auto

lemma fst_present [simp]: "fst (present p) = fst p"
  by (cases p) simp

lemma in_present_fst: "(k, v) \<in> set (map present xs) \<Longrightarrow> k \<in> fst ` set xs"
  by (induction xs) force+

lemma map_of_present: "map_of (map present s) k = map_option Some (map_of s k)"
  by (induction s) auto

text \<open>
  The first source assigned to a new object, and a second source assigned after it.
\<close>

lemma assign1_present:
  assumes "distinct (map fst a) \<or> ''__proto__'' \<notin> fst ` set a"
    and "''__proto__'' \<notin> fst ` set t"
  shows "assign1 (map present t, False) (map present a)
         = (map present (overlay t (AList.delete ''__proto__'' a)), setter_hidden a)"
proof -
  have "distinct (map fst (map present a)) \<or> ''__proto__'' \<notin> fst ` set (map present a)"
    using assms(1) by (simp add: comp_def image_image)
  moreover have "''__proto__'' \<notin> fst ` set (map present t)"
    using assms(2) by (simp add: image_image)
  ultimately have "assign1 (map present t, False) (map present a)
      = (overlay (map present t) (AList.delete ''__proto__'' (map present a)),
         case map_of (map present a) ''__proto__'' of
           Some v \<Rightarrow> hides_setter v | None \<Rightarrow> False)"
    by (rule assign1_source)
  moreover have "(case map_of (map present a) ''__proto__'' of
           Some v \<Rightarrow> hides_setter v | None \<Rightarrow> False) = setter_hidden a"
    by (simp add: map_of_present setter_hidden_def split: option.splits)
  ultimately show ?thesis
    by (simp add: present_overlay present_delete)
qed

lemma assign1_copied:
  assumes "distinct (map fst b) \<or> ''__proto__'' \<notin> fst ` set b"
    and "''__proto__'' \<notin> fst ` set t"
  shows "fst (assign1 (map present t, h) (map present b))
         = map present (overlay t (if h then b else AList.delete ''__proto__'' b))"
proof (cases h)
  case True
  then show ?thesis by (simp add: assign1_plain present_overlay)
next
  case False
  then show ?thesis using assign1_present [OF assms] by simp
qed

lemma first_source_keys: "''__proto__'' \<notin> fst ` set (overlay [] (AList.delete ''__proto__'' a))"
  by (simp add: keys_overlay delete_notin_dom)

lemma assign_pair:
  assumes "distinct (map fst a) \<or> ''__proto__'' \<notin> fst ` set a"
    and "distinct (map fst b) \<or> ''__proto__'' \<notin> fst ` set b"
  shows "assign [map present a, map present b] = map present (merged_map a b)"
proof -
  have "assign1 ([], False) (map present a)
      = (map present (overlay [] (AList.delete ''__proto__'' a)), setter_hidden a)"
    using assign1_present [OF assms(1), of "[]"] by simp
  then show ?thesis
    using assign1_copied [OF assms(2) first_source_keys, of a "setter_hidden a"]
    by (simp add: assign_def merged_map_def copied_def)
qed

lemma assign_triple:
  assumes "distinct (map fst a) \<or> ''__proto__'' \<notin> fst ` set a"
    and "distinct (map fst b) \<or> ''__proto__'' \<notin> fst ` set b"
    and "''__proto__'' \<notin> fst ` set c"
  shows "assign [map present a, map present b, c]
         = overlay (overlay (overlay [] (map present (AList.delete ''__proto__'' a)))
              (map present (copied a b))) c"
proof -
  have "assign1 ([], False) (map present a)
      = (map present (overlay [] (AList.delete ''__proto__'' a)), setter_hidden a)"
    using assign1_present [OF assms(1), of "[]"] by simp
  then show ?thesis
    using assign1_copied [OF assms(2) first_source_keys, of a "setter_hidden a"]
    by (simp add: assign_def copied_def fst_assign1_plain [OF assms(3)] present_overlay)
qed

text \<open>
  What is written when the last source sets \<open>b\<close> to undefined: the key \<open>b\<close> is gone from
  every source, and nothing else changes.
\<close>

lemma stringify_overlay:
  assumes os: "b \<notin> fst ` set os"
  shows "defined_props (overlay (overlay (overlay [] (map present t)) (map present e))
            ((b, None) # map present os))
         = overlay (overlay (overlay [] (AList.delete b t)) (AList.delete b e)) os"
proof -
  define w where "w = overlay (overlay [] t) e"
  define y where "y = AList.update b None (map present w)"
  define z where "z = overlay y (map present os)"
  have dw: "distinct (map fst w)"
    by (simp add: w_def distinct_overlay)
  have dpw: "distinct (map fst (map present w))"
    using dw by (simp add: comp_def)
  have yb: "v = None" if "(b, v) \<in> set y" for v
    using set_update_distinct [OF dpw] that unfolding y_def by blast
  have zs: "set z \<subseteq> set y \<union> set (map present os)"
    unfolding z_def by (rule set_overlay_subset)
  have zb: "v = None" if "(b, v) \<in> set z" for v
  proof -
    from that zs have "(b, v) \<in> set y \<or> (b, v) \<in> set (map present os)" by blast
    then show ?thesis using yb os in_present_fst by blast
  qed
  have bo: "AList.delete b (map present os) = map present os"
    using os by (intro delete_id) (simp add: image_image)
  have dz: "AList.delete b z = map present (overlay (AList.delete b w) os)"
    by (simp add: z_def y_def delete_overlay bo delete_update_same present_delete present_overlay)
  have "defined_props z = defined_props (AList.delete b z)"
    using zb by (simp add: defined_props_delete)
  also have "\<dots> = overlay (AList.delete b w) os"
    by (simp only: dz defined_props_present)
  also have "AList.delete b w = overlay (overlay [] (AList.delete b t)) (AList.delete b e)"
    by (simp add: w_def delete_overlay)
  finally have "defined_props z
      = overlay (overlay (overlay [] (AList.delete b t)) (AList.delete b e)) os" .
  moreover have "z = overlay (overlay (overlay [] (map present t)) (map present e))
      ((b, None) # map present os)"
    by (simp add: z_def y_def w_def present_overlay)
  ultimately show ?thesis by simp
qed

lemma merged_field_eq:
  "merged_field data json f =
     (if truthy (get json f)
      then [(f, JObj (merged_map (own (get json f)) (own (get data f))))] else [])"
  by (simp add: merged_field_def Let_def assign_pair [OF own_source own_source])

lemma keys_merged_field: "fst ` set (merged_field data json f) \<subseteq> {f}"
  by (auto simp: merged_field_eq)

lemma keys_merged_fields:
  "fst ` set (merged_field data json ''devDependencies'' @ merged_field data json ''dependencies'')
     \<subseteq> {''devDependencies'', ''dependencies''}"
  using keys_merged_field [of data json "''devDependencies''"]
    keys_merged_field [of data json "''dependencies''"] by auto

lemma mergeJSON_value_props:
  "mergeJSON_value data json = Inr r \<Longrightarrow> r = JObj (merged_props data json)"
proof -
  assume m: "mergeJSON_value data json = Inr r"
  let ?os = "merged_field data json ''devDependencies'' @ merged_field data json ''dependencies''"
  have nb: "''bake'' \<notin> fst ` set ?os"
    using keys_merged_fields [of data json] by auto
  have "''__proto__'' \<notin> fst ` set ?os"
    using keys_merged_fields [of data json] by auto
  then have np: "''__proto__'' \<notin> fst ` set ((''bake'', None) # map present ?os)"
    by (simp add: image_Un image_image)
  have a: "assign [map present (own (Some json)), map present (own (Some data)),
      (''bake'', None) # map present (merged_field data json ''devDependencies'')
         @ map present (merged_field data json ''dependencies'')]
    = overlay (overlay (overlay [] (map present (AList.delete ''__proto__'' (own (Some json)))))
        (map present (copied (own (Some json)) (own (Some data)))))
        ((''bake'', None) # map present ?os)"
    using assign_triple [OF own_source own_source np, of "Some json" "Some data"] by simp
  note b = stringify_overlay [OF nb,
      of "AList.delete ''__proto__'' (own (Some json))" "copied (own (Some json)) (own (Some data))",
      simplified]
  from m show ?thesis
    by (simp add: mergeJSON_value_def Let_def stringify_def merged_props_def a b
        del: own.simps split: if_splits)
qed

lemma distinct_merged_props: "distinct (map fst (merged_props data json))"
  by (simp add: merged_props_def distinct_overlay)

lemma distinct_merged_map: "distinct (map fst (merged_map a b))"
  by (simp add: merged_map_def distinct_overlay)

lemma own_JObj_distinct: "distinct (map fst kvs) \<Longrightarrow> own (Some (JObj kvs)) = kvs"
  by (simp add: overlay_Nil_distinct)

lemma get_JObj: "get (JObj kvs) k = map_of (rev kvs) k"
  by (simp add: map_of_rev_distinct distinct_overlay map_of_overlay)

lemma get_JObj_distinct: "distinct (map fst kvs) \<Longrightarrow> get (JObj kvs) k = map_of kvs k"
  by (simp only: get_JObj map_of_rev_distinct)


lemma get_own: "k \<noteq> ''length'' \<Longrightarrow> get v k = map_of (rev (own (Some v))) k"
  by (cases v) simp_all

text \<open>
  Without a property \<^verbatim>\<open>__proto__\<close> in the way, the merged map has none unless the first
  source has put the setter out of reach.
\<close>

lemma merged_map_keys:
  "\<not> setter_hidden a \<Longrightarrow> ''__proto__'' \<notin> fst ` set (merged_map a b)"
  by (simp add: merged_map_def copied_def keys_overlay delete_notin_dom)

lemma copied_merged_map: "copied a (merged_map a b) = merged_map a b"
  by (simp add: copied_def merged_map_keys delete_id)

lemma merged_map_again: "merged_map a (merged_map a b) = merged_map a b"
proof -
  let ?x = "overlay [] (AList.delete ''__proto__'' a)"
  have "overlay ?x (overlay ?x (copied a b)) = overlay ?x (copied a b)"
    by (rule overlay_absorb) (simp_all add: distinct_overlay take_keys_overlay)
  then have "overlay ?x (merged_map a b) = merged_map a b"
    by (simp add: merged_map_def)
  then show ?thesis
    by (simp add: merged_map_def [of a "merged_map a b"] copied_merged_map)
qed

text \<open>
  What the merged manifest holds under a dependency field: the merged map when the
  template's value is truthy, and otherwise the destination's value, or the template's
  when the destination has none.
\<close>

lemma get_merged:
  assumes f: "f = ''devDependencies'' \<or> f = ''dependencies''"
  shows "get (JObj (merged_props data json)) f =
    (if truthy (get json f)
     then Some (JObj (merged_map (own (get json f)) (own (get data f))))
     else case get data f of Some v \<Rightarrow> Some v | None \<Rightarrow> get json f)"
proof -
  have g: "get (JObj (merged_props data json)) f = map_of (merged_props data json) f"
    by (rule get_JObj_distinct) (rule distinct_merged_props)
  have nb: "f \<noteq> ''bake''" and nl: "f \<noteq> ''length''" and np: "f \<noteq> ''__proto__''"
    using f by auto
  let ?os = "merged_field data json ''devDependencies'' @ merged_field data json ''dependencies''"
  have mp: "map_of (merged_props data json) f =
     (case map_of (rev ?os) f of Some v \<Rightarrow> Some v
      | None \<Rightarrow> (case get data f of Some v \<Rightarrow> Some v | None \<Rightarrow> get json f))"
    by (simp add: merged_props_def copied_def map_of_overlay map_add_def map_of_rev_delete [OF nb]
        map_of_rev_delete [OF np] get_own [OF nl] del: own.simps split: option.splits)
  have os: "map_of (rev ?os) f =
     (if truthy (get json f)
      then Some (JObj (merged_map (own (get json f)) (own (get data f)))) else None)"
    using f by (auto simp: merged_field_eq)
  show ?thesis
    unfolding g mp os by simp
qed

lemma merged_field_again:
  assumes f: "f = ''devDependencies'' \<or> f = ''dependencies''"
  shows "merged_field (JObj (merged_props data json)) json f = merged_field data json f"
proof (cases "truthy (get json f)")
  case True
  then show ?thesis
    by (simp add: merged_field_eq get_merged [OF f] own_JObj_distinct distinct_merged_map
        merged_map_again del: get.simps own.simps)
next
  case False
  then show ?thesis
    by (simp add: merged_field_eq)
qed


lemma scenario_B: "mergeJSON_value scenario_B_existing scenario_B_template = Inr scenario_B_merged"
  by (simp add: mergeJSON_value_def merged_field_def stringify_def assign_def overlay_def
      scenario_B_existing_def scenario_B_template_def scenario_B_merged_def)


text \<open>
  Claim C4. The merge is idempotent: merging the template's manifest \<open>T\<close> into the result
  \<open>R\<close> of merging it into \<open>E\<close> succeeds and gives \<open>R\<close> again, with every property in
  the same place.
\<close>

theorem mergeJSON_idempotent:
  assumes "mergeJSON_value E T = Inr R"
  shows "mergeJSON_value R T = Inr R"
proof -
  have R: "R = JObj (merged_props E T)"
    using assms by (rule mergeJSON_value_props)
  have T: "T \<noteq> JNull"
    using assms by (auto simp: mergeJSON_value_def)
  let ?p = "merged_props E T"
  let ?os = "merged_field E T ''devDependencies'' @ merged_field E T ''dependencies''"
  let ?x = "overlay [] (AList.delete ''bake'' (AList.delete ''__proto__'' (own (Some T))))"
  let ?e = "AList.delete ''bake'' (copied (own (Some T)) (own (Some E)))"
  obtain R' where R': "mergeJSON_value R T = Inr R'"
    using T by (auto simp: mergeJSON_value_def Let_def R)
  have p: "?p = overlay ?x (?e @ ?os)"
    by (simp add: merged_props_def overlay_append)
  have kos: "fst ` set ?os \<subseteq> {''devDependencies'', ''dependencies''}"
    by (rule keys_merged_fields)
  then have "''bake'' \<notin> fst ` set ?os"
    by auto
  then have "''bake'' \<notin> fst ` set ?p"
    by (auto simp: merged_props_def keys_overlay delete_notin_dom)
  then have del: "AList.delete ''bake'' ?p = ?p"
    by (rule delete_id)
  have k1: "''__proto__'' \<notin> fst ` set ?os"
    using kos by auto
  have k2: "''__proto__'' \<notin> fst ` set (AList.delete ''bake'' (AList.delete ''__proto__'' (own (Some T))))"
    by (rule no_key_delete) (rule delete_notin_dom)
  have k3: "''__proto__'' \<notin> fst ` set ?e" if "\<not> setter_hidden (own (Some T))"
    using that by (simp add: copied_def no_key_delete delete_notin_dom)
  have "''__proto__'' \<notin> fst ` set ?p" if "\<not> setter_hidden (own (Some T))"
    using k1 k2 k3 [OF that] by (auto simp: merged_props_def keys_overlay simp del: own.simps)
  then have cp: "copied (own (Some T)) ?p = ?p"
    by (simp add: copied_def delete_id)
  have oR: "own (Some (JObj ?p)) = ?p"
    by (rule own_JObj_distinct) (rule distinct_merged_props)
  have dos: "distinct (map fst ?os)"
    by (auto simp: merged_field_eq)
  have "merged_props R T = overlay (overlay ?x (AList.delete ''bake'' ?p)) ?os"
    unfolding R by (simp add: merged_props_def [of "JObj ?p" T] merged_field_again oR cp
        del: own.simps)
  also have "AList.delete ''bake'' ?p = ?p"
    by (rule del)
  also have "overlay ?x ?p = ?p"
    by (rule overlay_absorb) (simp_all add: p distinct_overlay take_keys_overlay)
  also have "overlay ?p ?os = ?p"
    unfolding merged_props_def using dos by (rule overlay_again)
  finally have "merged_props R T = ?p" .
  with mergeJSON_value_props [OF R'] have "R' = R"
    by (simp add: R)
  with R' show ?thesis by simp
qed

theorem mergeJSON_idempotent_witness:
  "mergeJSON_value scenario_B_existing scenario_B_template = Inr scenario_B_merged
   \<and> mergeJSON_value scenario_B_merged scenario_B_template = Inr scenario_B_merged"
  using mergeJSON_idempotent [OF scenario_B] by (simp add: scenario_B)


text \<open>The file system operations, for evaluation on examples.\<close>

lemmas fs_defs = readdirSync_def require_def exists_def file_entry_def directory_def
  resolve_def basename_def writeFile_def

section \<open>Properties of hooks\<close>









section \<open>Properties of the per-file operations\<close>

text \<open>
  Claim C3. A template file that is not the manifest and whose destination exists is not
  copied: the operation warns that the file already exists and is skipped, what remains of
  it writes nothing, and it is fulfilled, on whatever file system \<open>fs'\<close> it completes,
  leaving that file system as it is.
\<close>

theorem stream_existing_skipped:
  assumes "basename src \<noteq> ''package.json''" and "file_entry fs src" and "exists fs dest"
  shows "template_file src dest fs =
           (Pending (basename dest) Noop,
            [Read src, Log Warning ''%s%salready exists, skipping'' (basename dest)])
         \<and> settle (Pending (basename dest) Noop) fs' = (Fulfilled, fs', [])"
  using assms
  by (auto simp: template_file_def stream_def file_entry_def Let_def
      split: option.splits node.splits)

theorem stream_existing_skipped_witness:
  "template_file [''lib'', ''node'', ''Makefile''] [''work'', ''Makefile''] busy_fs =
     (Pending ''Makefile'' Noop,
      [Read [''lib'', ''node'', ''Makefile''],
       Log Warning ''%s%salready exists, skipping'' ''Makefile''])
   \<and> settle (Pending ''Makefile'' Noop) busy_fs = (Fulfilled, busy_fs, [])
   \<and> lookup busy_fs [''work'', ''Makefile''] = Some (File (Text ''mine''))"
proof -
  have a: "basename [''lib'', ''node'', ''Makefile''] \<noteq> ''package.json''"
    by (simp add: basename_def)
  have b: "file_entry busy_fs [''lib'', ''node'', ''Makefile'']"
    by (simp add: file_entry_def busy_fs_def node_template_def)
  have c: "exists busy_fs [''work'', ''Makefile'']"
    by (simp add: exists_def busy_fs_def)
  have d: "basename [''work'', ''Makefile''] = ''Makefile''"
    by (simp add: basename_def)
  have e: "lookup busy_fs [''work'', ''Makefile''] = Some (File (Text ''mine''))"
    by (simp add: busy_fs_def)
  from stream_existing_skipped [OF a b c, of busy_fs] e show ?thesis
    unfolding d by blast
qed

text \<open>
  Claim C10. When the directory recorded for a template does not exist,
  \<^verbatim>\<open>expandTemplateDirectory\<close> returns the template as it is, with no list of promises,
  and does nothing on the file system: it has no event.
\<close>

theorem expandTemplateDirectory_missing:
  assumes "\<not> exists fs (t_dir t)"
  shows "expandTemplateDirectory t cwd fs = (Inr (t, None), [])"
  using assms by (simp add: expandTemplateDirectory_def)

theorem expandTemplateDirectory_missing_witness:
  "\<not> exists demo_fs [''gone'']
   \<and> expandTemplateDirectory \<lparr>t_dir = [''gone''], t_name = ''gone'', t_json = JObj []\<rparr>
        [''work''] demo_fs
      = (Inr (\<lparr>t_dir = [''gone''], t_name = ''gone'', t_json = JObj []\<rparr>, None), [])"
proof -
  have a: "\<not> exists demo_fs (t_dir \<lparr>t_dir = [''gone''], t_name = ''gone'', t_json = JObj []\<rparr>)"
    by (simp add: exists_def demo_fs_def)
  from expandTemplateDirectory_missing [OF a, of "[''work'']"] a show ?thesis
    by simp
qed

section \<open>Properties of the run\<close>

text \<open>
  Claim C9. A run for a name that no template carries fails with \<open>TemplateNotFound\<close>:
  the failure is the only event, so no hook is executed and no file is read, copied or
  merged, and the file system is the one the run started with.
\<close>

theorem run_unknown_template:
  assumes "name_or_default name \<notin> t_name ` set templates"
  shows "run sh sched templates cwd name args fs =
           (Failed (TemplateNotFound (name_or_default name)), fs,
            [Fail (TemplateNotFound (name_or_default name))])"
proof -
  have "find_template templates name = None"
    using assms by (force simp: find_template_def find_None_iff)
  then show ?thesis
    by (simp add: run_def)
qed

theorem run_unknown_template_witness:
  "name_or_default (Some ''nodex'') \<notin> t_name ` set demo_templates
   \<and> run demo_shell [] demo_templates [''work''] (Some ''nodex'') [] demo_fs
      = (Failed (TemplateNotFound ''nodex''), demo_fs, [Fail (TemplateNotFound ''nodex'')])"
proof -
  have a: "name_or_default (Some ''nodex'') \<notin> t_name ` set demo_templates"
    by (simp add: name_or_default_def demo_templates_def)
  have b: "name_or_default (Some ''nodex'') = ''nodex''"
    by (simp add: name_or_default_def)
  from run_unknown_template [OF a, of demo_shell "[]" "[''work'']" "[]" demo_fs] a show ?thesis
    unfolding b by blast
qed

subsection \<open>The stages of a run\<close>

lemma stages_append [simp]: "stages (a @ b) = stages a @ stages b"
  by (simp add: stages_def List.map_filter_def)

lemma stages_Nil [simp]: "stages [] = []"
  by (simp add: stages_def)

lemma stages_Cons:
  "stages (e # evs) = (case stage e of None \<Rightarrow> stages evs | Some n \<Rightarrow> n # stages evs)"
  by (simp add: stages_def split: option.splits)

lemma sorted_const: "set xs \<subseteq> {n::nat} \<Longrightarrow> sorted xs"
  by (induction xs) auto

lemma sorted_stage_blocks:
  assumes "set a \<subseteq> {0::nat}" and "set b \<subseteq> {1}" and "set c \<subseteq> {1}" and "set d \<subseteq> {2}"
  shows "sorted (a @ b @ c @ d)"
proof -
  have a0: "x = 0" if "x \<in> set a" for x
    using that assms(1) by blast
  have b1: "x = 1" if "x \<in> set b" for x
    using that assms(2) by blast
  have c1: "x = 1" if "x \<in> set c" for x
    using that assms(3) by blast
  have d2: "x = 2" if "x \<in> set d" for x
    using that assms(4) by blast
  have ab: "x \<le> y" if "x \<in> set a" for x y
    using a0 [OF that] by simp
  have bc: "x \<le> y" if "x \<in> set b" and "y \<in> set c" for x y
    using b1 [OF that(1)] c1 [OF that(2)] by simp
  have bd: "x \<le> y" if "x \<in> set b" and "y \<in> set d" for x y
    using b1 [OF that(1)] d2 [OF that(2)] by simp
  have cd: "x \<le> y" if "x \<in> set c" and "y \<in> set d" for x y
    using c1 [OF that(1)] d2 [OF that(2)] by simp
  have "sorted a" "sorted b" "sorted c" "sorted d"
    using assms by (simp_all add: sorted_const)
  then show ?thesis
    using ab bc bd cd by (auto simp: sorted_append)
qed

lemma script_stages:
  assumes "script sh scripts k fs = (r, fs', evs)" and "hook_stage k = Some n"
  shows "set (stages evs) \<subseteq> {n} \<and> filter launches evs = [] \<and> filter completes evs = []
         \<and> filter is_fail evs = []"
  using assms
  by (auto simp: script_def stages_Cons split: option.splits if_splits prod.splits)

lemma invoke_stages:
  assumes "invoke sh scripts name fs = (r, fs', evs)"
    and "hook_stage (''pre'' @ name) = Some n" and "hook_stage name = Some n"
    and "hook_stage (''post'' @ name) = Some n"
  shows "set (stages evs) \<subseteq> {n} \<and> filter launches evs = [] \<and> filter completes evs = []
         \<and> filter is_fail evs = []"
proof -
  obtain r1 fs1 e1 where s1: "script sh scripts (''pre'' @ name) fs = (r1, fs1, e1)"
    by (cases "script sh scripts (''pre'' @ name) fs") auto
  obtain r2 fs2 e2 where s2: "script sh scripts name fs1 = (r2, fs2, e2)"
    by (cases "script sh scripts name fs1") auto
  obtain r3 fs3 e3 where s3: "script sh scripts (''post'' @ name) fs2 = (r3, fs3, e3)"
    by (cases "script sh scripts (''post'' @ name) fs2") auto
  note a = script_stages [OF s1 assms(2)] script_stages [OF s2 assms(3)]
    script_stages [OF s3 assms(4)]
  have "evs = Log Debug ''Invoke %s'' name # e1
      \<or> evs = Log Debug ''Invoke %s'' name # e1 @ e2
      \<or> evs = Log Debug ''Invoke %s'' name # e1 @ e2 @ e3"
    using assms(1) s1 [simplified] s2 s3 [simplified]
    by (auto simp: invoke_def split: option.splits)
  then show ?thesis
    using a assms(3) by (auto simp: stages_Cons)
qed

lemma template_file_stages:
  assumes "template_file src dest fs = (p, evs)"
  shows "set (stages evs) \<subseteq> {1} \<and> length (filter launches evs) = 1 \<and> filter completes evs = []
         \<and> filter is_fail evs = []"
  using assms
  by (auto simp: template_file_def json_file_def stream_def mergeJSON_def Let_def stages_Cons
      split: if_splits sum.splits)

lemma template_file_then:
  assumes "template_file src dest fs = (p, evs)"
  shows "set (stages (then_events p)) \<subseteq> {1} \<and> filter launches (then_events p) = []
         \<and> filter completes (then_events p) = [] \<and> filter is_fail (then_events p) = []"
  using assms
  by (auto simp: template_file_def json_file_def stream_def mergeJSON_def Let_def stages_Cons
      split: if_splits sum.splits)

lemma expand_file_stages:
  assumes "expand_file cwd fs src = (p, evs)"
  shows "set (stages evs) \<subseteq> {1} \<and> length (filter launches evs) = 1 \<and> filter completes evs = []
         \<and> filter is_fail evs = []"
proof -
  obtain q where "template_file src (resolve cwd (basename src)) fs = (q, evs)"
    using assms by (auto simp: expand_file_def split: prod.splits)
  then show ?thesis by (rule template_file_stages)
qed

lemma expand_file_promise:
  assumes "expand_file cwd fs src = (p, evs)"
  shows "file_promise p"
proof -
  obtain q where q: "template_file src (resolve cwd (basename src)) fs = (q, evs)"
    and p: "p = Then q (finished (basename src))"
    using assms by (auto simp: expand_file_def split: prod.splits)
  show ?thesis
    using template_file_then [OF q]
    by (auto simp: file_promise_def p finished_def stages_Cons)
qed

lemma launched_stages:
  "set (stages (concat (map (\<lambda>f. snd (expand_file cwd fs f)) files))) \<subseteq> {1}
   \<and> length (filter launches (concat (map (\<lambda>f. snd (expand_file cwd fs f)) files)))
       = length files
   \<and> filter completes (concat (map (\<lambda>f. snd (expand_file cwd fs f)) files)) = []
   \<and> filter is_fail (concat (map (\<lambda>f. snd (expand_file cwd fs f)) files)) = []"
proof (induction files)
  case Nil
  show ?case by simp
next
  case (Cons f files)
  obtain p evs where t: "expand_file cwd fs f = (p, evs)"
    by (cases "expand_file cwd fs f") auto
  show ?case
    using Cons expand_file_stages [OF t] by (auto simp: t)
qed

text \<open>
  Expansion launches one operation for every promise that it returns, and completes none.
\<close>

lemma expandTemplateDirectory_stages:
  assumes "expandTemplateDirectory t cwd fs = (x, evs)"
  shows "set (stages evs) \<subseteq> {1} \<and> filter completes evs = [] \<and> filter is_fail evs = []
         \<and> (case x of
               Inr (d, Some ps) \<Rightarrow>
                 length (filter launches evs) = length ps \<and> (\<forall>p \<in> set ps. file_promise p)
             | _ \<Rightarrow> filter launches evs = [])"
proof (cases "exists fs (t_dir t)")
  case False
  then show ?thesis
    using assms by (auto simp: expandTemplateDirectory_def)
next
  case True
  show ?thesis
  proof (cases "readdirSync fs (t_dir t)")
    case (Inl e)
    then show ?thesis
      using assms True by (auto simp: expandTemplateDirectory_def stages_Cons)
  next
    case (Inr names)
    let ?files = "filter (file_entry fs) (map (resolve (t_dir t)) names)"
    have "evs = ReadDir (t_dir t) # concat (map (\<lambda>f. snd (expand_file cwd fs f)) ?files)"
      and "x = Inr (t, Some (map (\<lambda>f. fst (expand_file cwd fs f)) ?files))"
      using assms True Inr by (auto simp: expandTemplateDirectory_def Let_def comp_def)
    moreover have "file_promise (fst (expand_file cwd fs f))" for f
      by (rule expand_file_promise [of cwd fs f _ "snd (expand_file cwd fs f)"]) simp
    ultimately show ?thesis
      using launched_stages [of cwd fs ?files]
      by (auto simp: stages_Cons)
  qed
qed

text \<open>
  The events of a completion: those of the input and output, and then, if the promise is
  fulfilled, the lines of its callbacks.
\<close>

lemma settle_events:
  "settle p fs = (r, fs', evs) \<Longrightarrow>
     \<exists>base. evs = base @ (if r = Fulfilled then then_events p else [])
       \<and> set (stages base) \<subseteq> {1} \<and> filter launches base = [] \<and> filter completes base = []
       \<and> filter is_fail base = []"
proof (induction p fs arbitrary: r fs' evs rule: settle.induct)
  case (6 p evs0 fs)
  obtain r1 fs1 e1 where s: "settle p fs = (r1, fs1, e1)"
    by (cases "settle p fs") auto
  from "6.IH" [OF s] obtain base
    where base: "e1 = base @ (if r1 = Fulfilled then then_events p else [])"
      "set (stages base) \<subseteq> {1}" "filter launches base = []" "filter completes base = []"
      "filter is_fail base = []"
    by blast
  have "r = r1" and "evs = (if r1 = Fulfilled then e1 @ evs0 else e1)"
    using "6.prems" s by (auto split: settled.splits)
  then show ?case
    using base by (intro exI [of _ base]) auto
qed (auto simp: stages_Cons split: sum.splits)

lemma settle_stages:
  assumes "settle p fs = (r, fs', evs)" and "file_promise p"
  shows "set (stages evs) \<subseteq> {1} \<and> filter launches evs = [] \<and> filter is_fail evs = []
         \<and> (r = Fulfilled \<longrightarrow> length (filter completes evs) = 1)"
  using settle_events [OF assms(1)] assms(2)
  by (auto simp: file_promise_def split: if_splits)

text \<open>The join: when the wait is fulfilled, every promise has completed, whatever the order.\<close>

lemma settle_all_stages:
  assumes "settle_all sched ps fs = (r, fs', evs)" and "\<forall>p \<in> set ps. file_promise p"
  shows "set (stages evs) \<subseteq> {1} \<and> filter launches evs = [] \<and> filter is_fail evs = []
         \<and> (r = Fulfilled \<longrightarrow> length (filter completes evs) = length ps)"
  using assms
proof (induction sched ps fs arbitrary: r fs' evs rule: settle_all.induct)
  case (1 sched fs)
  then show ?case by simp
next
  case (2 sched p ps fs)
  define j where "j = (case sched of [] \<Rightarrow> 0 | i # is \<Rightarrow> i mod Suc (length ps))"
  define rest where "rest = take j (p # ps) @ drop (Suc j) (p # ps)"
  have j: "j < Suc (length ps)"
    by (auto simp: j_def split: list.splits)
  then have len: "length rest = length ps"
    by (auto simp: rest_def)
  have rest': "take j (p # ps) @ drop j ps = rest"
    by (simp add: rest_def)
  have "set rest \<subseteq> set (p # ps)"
    unfolding rest_def using set_take_subset [of j "p # ps"] set_drop_subset [of "Suc j" "p # ps"]
    by auto
  then have good: "\<forall>q \<in> set rest. file_promise q"
    using "2.prems"(2) by blast
  have "(p # ps) ! j \<in> set (p # ps)"
    using j by (intro nth_mem) simp
  then have gj: "file_promise ((p # ps) ! j)"
    using "2.prems"(2) by blast
  obtain r1 fs1 e1 where s: "settle ((p # ps) ! j) fs = (r1, fs1, e1)"
    by (cases "settle ((p # ps) ! j) fs") auto
  note a = settle_stages [OF s gj]
  show ?case
  proof (cases "r1 = Fulfilled")
    case False
    then have "evs = e1" and "r = r1"
      using "2.prems"(1) s by (auto simp: j_def [symmetric] Let_def split: settled.splits)
    then show ?thesis using a False by auto
  next
    case True
    obtain r2 fs2 e2 where s2: "settle_all (tl sched) rest fs1 = (r2, fs2, e2)"
      by (cases "settle_all (tl sched) rest fs1") auto
    have ih: "set (stages e2) \<subseteq> {1} \<and> filter launches e2 = [] \<and> filter is_fail e2 = []
         \<and> (r2 = Fulfilled \<longrightarrow> length (filter completes e2) = length rest)"
      using "2.IH" [OF j_def rest_def _ _ _ s2 good] s True by (simp add: j_def)
    have "evs = e1 @ e2" and "r = r2"
      using "2.prems"(1) s s2 True
      by (auto simp: j_def [symmetric] rest' Let_def)
    then show ?thesis using a ih True len by auto
  qed
qed

lemma Promise_all_stages:
  assumes "Promise_all sched promises fs = (r, fs', evs)"
    and "case promises of None \<Rightarrow> True | Some ps \<Rightarrow> \<forall>p \<in> set ps. file_promise p"
  shows "set (stages evs) \<subseteq> {1} \<and> filter launches evs = [] \<and> filter is_fail evs = []
         \<and> (r = Fulfilled \<longrightarrow>
              (case promises of None \<Rightarrow> False
               | Some ps \<Rightarrow> length (filter completes evs) = length ps))"
proof (cases promises)
  case None
  then show ?thesis using assms by (auto simp: Promise_all_def)
next
  case (Some ps)
  show ?thesis
  proof (cases "List.map_filter thrown ps")
    case Nil
    then have "settle_all sched ps fs = (r, fs', evs)"
      using assms Some by (simp add: Promise_all_def)
    from settle_all_stages [OF this] assms(2) show ?thesis
      by (simp add: Some)
  next
    case (Cons e es)
    then show ?thesis using assms Some by (auto simp: Promise_all_def)
  qed
qed

text \<open>
  Claim C6. In the trace of every run, under every order in which the per-file operations
  complete, the stages never go back: every event of the start phase, the exit of its last
  process included, precedes the first event of file expansion, and every event of file
  expansion precedes the first event of the install phase. And when the install phase
  begins, every operation that was launched is done: as many operations have logged their
  completion as were launched.
\<close>

theorem run_stages_ordered:
  assumes "run sh sched templates cwd name args fs = (out, fs', tr)"
  shows "sorted (stages tr)
         \<and> (2 \<in> set (stages tr) \<longrightarrow> length (filter launches tr) = length (filter completes tr))"
proof (cases "find_template templates name")
  case None
  then have "tr = [Fail (TemplateNotFound (name_or_default name))]"
    using assms by (simp add: run_def)
  then show ?thesis by (simp add: stages_Cons)
next
  case (Some t)
  define scripts where "scripts = scripts_of t"
  define running where "running = [Log Info ''Running %s template'' (name_or_default name)]"
  have run: "run sh sched templates cwd name args fs =
     (case invoke sh scripts ''start'' fs of
        (Some e, fs1, evs1) \<Rightarrow> (Escaped e, fs1, running @ evs1)
      | (None, fs1, evs1) \<Rightarrow>
          (case expandTemplateDirectory t cwd fs1 of
             (Inl e, evs2) \<Rightarrow> (Escaped e, fs1, running @ evs1 @ evs2)
           | (Inr (d, promises), evs2) \<Rightarrow>
               (case Promise_all sched promises fs1 of
                  (Rejected e, fs2, evs3) \<Rightarrow>
                    (Failed e, fs2, running @ evs1 @ evs2 @ evs3 @ [Fail e])
                | (Uncaught e, fs2, evs3) \<Rightarrow>
                    (Crashed e, fs2, running @ evs1 @ evs2 @ evs3)
                | (Fulfilled, fs2, evs3) \<Rightarrow>
                    (case invoke sh scripts ''install'' fs2 of
                       (Some e, fs3, evs4) \<Rightarrow>
                         (Failed e, fs3, running @ evs1 @ evs2 @ evs3 @ evs4 @ [Fail e])
                     | (None, fs3, evs4) \<Rightarrow>
                         (Resolved, fs3, running @ evs1 @ evs2 @ evs3 @ evs4)))))"
    unfolding run_def Some Let_def scripts_def running_def by simp
  have r0: "stages running = []" "filter launches running = []" "filter completes running = []"
    by (simp_all add: running_def stages_Cons)
  obtain r1 fs1 e1 where i1: "invoke sh scripts ''start'' fs = (r1, fs1, e1)"
    by (cases "invoke sh scripts ''start'' fs") auto
  have a1: "set (stages e1) \<subseteq> {0}" "filter launches e1 = []" "filter completes e1 = []"
    using invoke_stages [OF i1, of 0] by (simp_all add: hook_stage_def)
  show ?thesis
  proof (cases r1)
    case (Some e)
    then have "tr = running @ e1"
      using assms by (simp add: run i1)
    moreover have "sorted (stages e1 @ [] @ [] @ [])"
      using a1(1) by (intro sorted_stage_blocks) simp_all
    ultimately show ?thesis
      using r0 a1 by auto
  next
    case None
    obtain x e2 where x: "expandTemplateDirectory t cwd fs1 = (x, e2)"
      by (cases "expandTemplateDirectory t cwd fs1") auto
    note a2 = expandTemplateDirectory_stages [OF x]
    have s2: "set (stages e2) \<subseteq> {1}" and c2: "filter completes e2 = []"
      using a2 by simp_all
    show ?thesis
    proof (cases x)
      case (Inl e)
      then have "tr = running @ e1 @ e2"
        using assms None by (simp add: run i1 x)
      moreover have "sorted (stages e1 @ stages e2 @ [] @ [])"
        using a1(1) s2 by (intro sorted_stage_blocks) simp_all
      ultimately show ?thesis
        using r0 a1 s2 by auto
    next
      case (Inr dp)
      obtain d promises where dp: "dp = (d, promises)" by (cases dp)
      obtain r3 fs3 e3 where p: "Promise_all sched promises fs1 = (r3, fs3, e3)"
        by (cases "Promise_all sched promises fs1") auto
      have "case promises of None \<Rightarrow> True | Some ps \<Rightarrow> \<forall>p \<in> set ps. file_promise p"
        using a2 Inr dp by (auto split: option.splits)
      note a3 = Promise_all_stages [OF p this]
      have s3: "set (stages e3) \<subseteq> {1}" and l3: "filter launches e3 = []"
        using a3 by simp_all
      have s123: "sorted (stages e1 @ stages e2 @ stages e3 @ [])"
        using a1(1) s2 s3 by (intro sorted_stage_blocks) simp_all
      have n2: "2 \<notin> set (stages e1 @ stages e2 @ stages e3)"
        using a1(1) s2 s3 by auto
      show ?thesis
      proof (cases r3)
        case (Rejected e)
        then have "tr = running @ e1 @ e2 @ e3 @ [Fail e]"
          using assms None Inr dp by (simp add: run i1 x p)
        then show ?thesis
          using r0 s123 n2 by (simp add: stages_Cons)
      next
        case (Uncaught e)
        then have "tr = running @ e1 @ e2 @ e3"
          using assms None Inr dp by (simp add: run i1 x p)
        then show ?thesis
          using r0 s123 n2 by simp
      next
        case Fulfilled
        obtain r4 fs4 e4 where i4: "invoke sh scripts ''install'' fs3 = (r4, fs4, e4)"
          by (cases "invoke sh scripts ''install'' fs3") auto
        have a4: "set (stages e4) \<subseteq> {2}" "filter launches e4 = []" "filter completes e4 = []"
          using invoke_stages [OF i4, of 2] by (simp_all add: hook_stage_def)
        obtain ps where ps: "promises = Some ps"
          and fin: "length (filter completes e3) = length ps"
          using a3 Fulfilled by (auto split: option.splits)
        have l2: "length (filter launches e2) = length ps"
          using a2 Inr dp ps by simp
        have "tr = running @ e1 @ e2 @ e3 @ e4
            \<or> (\<exists>e. tr = running @ e1 @ e2 @ e3 @ e4 @ [Fail e])"
          using assms None Inr dp Fulfilled by (cases r4) (auto simp: run i1 x p i4)
        moreover have "sorted (stages e1 @ stages e2 @ stages e3 @ stages e4)"
          using a1(1) s2 s3 a4(1) by (rule sorted_stage_blocks)
        ultimately show ?thesis
          using r0 a1 c2 l3 a4 l2 fin by (auto simp: stages_Cons)
      qed
    qed
  qed
qed

lemma demo_load: "loadTemplates demo_fs demo_roots = Inr demo_templates"
  by (simp add: loadTemplates_def loadTemplatesFrom_def load_template_def readdirSync_def
      require_def exists_def directory_def resolve_def basename_def
      demo_fs_def demo_roots_def demo_templates_def node_template_def)

lemma demo_run_trace:
  "demo_trace =
  [Log Info ''Running %s template'' ''node'',
   Log Debug ''Invoke %s'' ''start'', ReadDir [''lib'', ''node''],
   Read [''lib'', ''node'', ''Makefile''],
   Log Info ''Streaming %s file content to %s'' ''Makefile'',
   Read [''lib'', ''node'', ''package.json''],
   Log Info ''Streaming %s file content to %s'' ''package.json'',
   Read [''lib'', ''node'', ''utils.sh''],
   Log Info ''Streaming %s file content to %s'' ''utils.sh'',
   Write [''work'', ''utils.sh''],
   Log Success ''Finished streaming %s file'' ''utils.sh'',
   Log Info ''%s%s-> %s'' ''utils.sh'',
   Log Debug ''Finished streaming %s content'' ''utils.sh'',
   Write [''work'', ''Makefile''],
   Log Success ''Finished streaming %s file'' ''Makefile'',
   Log Info ''%s%s-> %s'' ''Makefile'',
   Log Debug ''Finished streaming %s content'' ''Makefile'',
   Write [''work'', ''package.json''],
   Log Success ''Finished streaming %s file'' ''package.json'',
   Log Info ''%s%s-> %s'' ''package.json'',
   Log Debug ''Finished streaming %s content'' ''package.json'',
   Log Debug ''Invoke %s'' ''install'',
   Log Info ''%s script'' ''install'',
   Spawn ''install'' (Own (JStr ''echo done'')),
   Exited ''install'' True]"
  by (simp add: demo_trace_def run_def find_template_def name_or_default_def scripts_of_def or_empty_def
      invoke_def script_def read_property_def object_prototype_def overlay_def
      expandTemplateDirectory_def expand_file_def template_file_def
      json_file_def stream_def Promise_all_def finished_def
      readdirSync_def exists_def file_entry_def resolve_def basename_def writeFile_def
      demo_shell_def demo_templates_def demo_fs_def node_template_def node_manifest_def Let_def)

theorem run_stages_ordered_witness:
  "sorted (stages demo_trace)
   \<and> 2 \<in> set (stages demo_trace)
   \<and> length (filter launches demo_trace) = 3
   \<and> length (filter completes demo_trace) = 3"
proof -
  let ?r = "run demo_shell [2, 0] demo_templates [''work''] (Some ''node'') [] demo_fs"
  have h: "?r = (fst ?r, fst (snd ?r), demo_trace)"
    by (simp add: demo_trace_def)
  note c = run_stages_ordered [OF h]
  have s: "stages demo_trace = [0, 1, 1, 1, 1, 1, 1, 1, 1, 1, 1, 1, 1, 1, 2, 2, 2, 2]"
    by (simp add: demo_run_trace stages_Cons hook_stage_def)
  have two: "2 \<in> set (stages demo_trace)"
    by (simp add: s)
  have l: "length (filter launches demo_trace) = 3"
    by (simp add: demo_run_trace)
  from c two have "length (filter launches demo_trace) = length (filter completes demo_trace)"
    by blast
  with l have "length (filter completes demo_trace) = 3"
    by simp
  with c two l show ?thesis
    by blast
qed

section \<open>Properties of template discovery\<close>

lemma lookup_append:
  "lookup fs (p @ q) = (case lookup fs p of None \<Rightarrow> None | Some n \<Rightarrow> lookup n q)"
  and lookup_in_append:
  "lookup_in es x (p @ q) = (case lookup_in es x p of None \<Rightarrow> None | Some n \<Rightarrow> lookup n q)"
  by (induction fs p and es x p rule: lookup_lookup_in.induct) auto

lemma lookup_in_keys: "lookup_in es x p = Some n \<Longrightarrow> x \<in> fst ` set es"
  by (induction es) (auto split: if_splits)

lemma lookup_child:
  "lookup a [n] = Some c \<Longrightarrow> \<exists>es. a = Dir es \<and> n \<in> fst ` set es"
  by (cases a) (auto dest: lookup_in_keys)

lemma directory_child:
  "directory fs (d @ [n]) \<Longrightarrow> \<exists>es. lookup fs d = Some (Dir es) \<and> n \<in> fst ` set es"
  by (cases "lookup fs d")
     (auto simp: directory_def lookup_append dest: lookup_child split: option.splits node.splits)

lemma find_append:
  "List.find P (xs @ ys) = (case List.find P xs of None \<Rightarrow> List.find P ys | Some x \<Rightarrow> Some x)"
  by (induction xs) auto

text \<open>Among the subdirectories of one root, the name finds the subdirectory of that name.\<close>

lemma find_in_root:
  assumes "loadTemplatesFrom fs d = Inr found"
  shows "List.find (\<lambda>p. basename p = n) found
          = (if directory fs (resolve d n) then Some (resolve d n) else None)"
proof -
  obtain names where names: "readdirSync fs d = Inr names"
    and found: "found = filter (directory fs) (map (resolve d) names)"
    using assms by (auto simp: loadTemplatesFrom_def split: sum.splits)
  have base: "basename (resolve d e) = e" for e
    by (simp add: basename_def resolve_def)
  show ?thesis
  proof (cases "directory fs (resolve d n)")
    case True
    then obtain es where "lookup fs d = Some (Dir es)" and "n \<in> fst ` set es"
      using directory_child [of fs d n] by (auto simp: resolve_def)
    then have n: "n \<in> set names"
      using names by (force simp: readdirSync_def)
    have "List.find (\<lambda>p. basename p = n) (filter (directory fs) (map (resolve d) ns))
        = Some (resolve d n)" if "n \<in> set ns" for ns
      using that True by (induction ns) (auto simp: base)
    from this [OF n] show ?thesis
      using True by (simp add: found)
  next
    case False
    have "List.find (\<lambda>p. basename p = n) (filter (directory fs) (map (resolve d) ns)) = None"
      for ns
      using False by (induction ns) (auto simp: base)
    then show ?thesis
      using False by (simp add: found)
  qed
qed

lemma traverse_Inr:
  "traverse f xs = Inr ys \<Longrightarrow> list_all2 (\<lambda>x y. f x = Inr y) xs ys"
  by (induction xs arbitrary: ys) (auto split: sum.splits)

lemma find_roots:
  assumes "list_all2 (\<lambda>d found. loadTemplatesFrom fs d = Inr found) roots founds"
  shows "List.find (\<lambda>p. basename p = n) (concat founds)
          = map_option (\<lambda>d. resolve d n) (List.find (\<lambda>d. directory fs (resolve d n)) roots)"
  using assms
proof (induction rule: list_all2_induct)
  case Nil
  show ?case by simp
next
  case (Cons d roots found founds)
  show ?case
    using Cons.IH find_in_root [OF Cons.hyps(1), of n]
    by (simp add: find_append)
qed

lemma not_exists_child: "\<not> exists fs d \<Longrightarrow> \<not> directory fs (resolve d n)"
  by (simp add: exists_def directory_def resolve_def lookup_append)

lemma find_existing:
  "List.find (\<lambda>d. directory fs (resolve d n)) (filter (exists fs) dirs)
     = List.find (\<lambda>d. directory fs (resolve d n)) dirs"
  by (induction dirs) (auto dest: not_exists_child)

lemma load_template_fields:
  "load_template fs p = Inr t \<Longrightarrow> t_dir t = p \<and> t_name t = basename p"
  by (auto simp: load_template_def Let_def split: if_splits sum.splits)

lemma find_loaded:
  assumes "list_all2 (\<lambda>p t. load_template fs p = Inr t) paths ts"
  shows "List.find (\<lambda>t. t_name t = n) ts
          = (case List.find (\<lambda>p. basename p = n) paths of
               None \<Rightarrow> None
             | Some p \<Rightarrow> (case load_template fs p of Inl e \<Rightarrow> None | Inr t \<Rightarrow> Some t))"
  using assms
proof (induction rule: list_all2_induct)
  case Nil
  show ?case by simp
next
  case (Cons p paths t ts)
  show ?case
    using Cons.IH load_template_fields [OF Cons.hyps(1)] Cons.hyps(1) by simp
qed

lemma find_loaded_None:
  assumes "list_all2 (\<lambda>p t. load_template fs p = Inr t) paths ts"
  shows "List.find (\<lambda>t. t_name t = n) ts = None
          \<longleftrightarrow> List.find (\<lambda>p. basename p = n) paths = None"
  using assms
proof (induction rule: list_all2_induct)
  case Nil
  show ?case by simp
next
  case (Cons p paths t ts)
  show ?case
    using Cons.IH load_template_fields [OF Cons.hyps(1)] by simp
qed

text \<open>
  Claim C5. Over the templates that \<^verbatim>\<open>loadTemplates\<close> discovers in the search roots, the
  search of \<^verbatim>\<open>run\<close> for a name returns what the specification's resolution returns: the
  template that is the subdirectory of that name in the first root, in the order of
  priority, that has one. A template of the same name in a later root is therefore never
  returned, and the search finds nothing only when no root has such a subdirectory. With
  no name given, the search is the one for the name \<^verbatim>\<open>default\<close>.
\<close>

theorem resolve_first_root:
  assumes "loadTemplates fs dirs = Inr templates"
  shows "find_template templates (Some n) = spec_resolve fs dirs n
         \<and> (find_template templates (Some n) = None
              \<longleftrightarrow> List.find (\<lambda>d. directory fs (resolve d n)) dirs = None)
         \<and> find_template templates None = find_template templates (Some ''default'')"
proof -
  obtain founds where f: "traverse (loadTemplatesFrom fs) (filter (exists fs) dirs) = Inr founds"
    and t: "traverse (load_template fs) (concat founds) = Inr templates"
    using assms by (auto simp: loadTemplates_def split: sum.splits)
  have roots: "List.find (\<lambda>p. basename p = n) (concat founds)
      = map_option (\<lambda>d. resolve d n) (List.find (\<lambda>d. directory fs (resolve d n)) dirs)"
    using find_roots [OF traverse_Inr [OF f], of n] by (simp add: find_existing)
  have "List.find (\<lambda>t. t_name t = n) templates = spec_resolve fs dirs n"
    unfolding find_loaded [OF traverse_Inr [OF t], of n] roots
    by (simp add: spec_resolve_def split: option.splits)
  moreover have "List.find (\<lambda>t. t_name t = n) templates = None
      \<longleftrightarrow> List.find (\<lambda>d. directory fs (resolve d n)) dirs = None"
    unfolding find_loaded_None [OF traverse_Inr [OF t], of n] roots by simp
  ultimately show ?thesis
    by (simp add: find_template_def name_or_default_def)
qed

lemma shadow_load:
  "loadTemplates shadow_fs demo_roots =
     Inr [\<lparr>t_dir = [''home'', ''node''], t_name = ''node'', t_json = JObj []\<rparr>,
          \<lparr>t_dir = [''lib'', ''node''], t_name = ''node'', t_json = node_manifest\<rparr>]"
  by (simp add: loadTemplates_def loadTemplatesFrom_def load_template_def fs_defs
      shadow_fs_def demo_roots_def node_template_def)

theorem resolve_first_root_witness:
  "loadTemplates shadow_fs demo_roots =
     Inr [\<lparr>t_dir = [''home'', ''node''], t_name = ''node'', t_json = JObj []\<rparr>,
          \<lparr>t_dir = [''lib'', ''node''], t_name = ''node'', t_json = node_manifest\<rparr>]
   \<and> spec_resolve shadow_fs demo_roots ''node''
      = Some \<lparr>t_dir = [''home'', ''node''], t_name = ''node'', t_json = JObj []\<rparr>
   \<and> find_template
        [\<lparr>t_dir = [''home'', ''node''], t_name = ''node'', t_json = JObj []\<rparr>,
         \<lparr>t_dir = [''lib'', ''node''], t_name = ''node'', t_json = node_manifest\<rparr>]
        (Some ''node'')
      = Some \<lparr>t_dir = [''home'', ''node''], t_name = ''node'', t_json = JObj []\<rparr>"
proof -
  have a: "spec_resolve shadow_fs demo_roots ''node''
      = Some \<lparr>t_dir = [''home'', ''node''], t_name = ''node'', t_json = JObj []\<rparr>"
    by (simp add: spec_resolve_def load_template_def fs_defs shadow_fs_def demo_roots_def)
  note b = resolve_first_root [OF shadow_load, of "''node''", THEN conjunct1]
  show ?thesis
    using shadow_load a b [unfolded a] by blast
qed

section \<open>Where the code departs from the specification\<close>

lemma mergeJSON_value_no_bake:
  assumes "mergeJSON_value E T = Inr R"
  shows "get R ''bake'' = None"
proof -
  have R: "R = JObj (merged_props E T)"
    using assms by (rule mergeJSON_value_props)
  have "''bake'' \<notin> fst ` set (merged_field E T ''devDependencies''
          @ merged_field E T ''dependencies'')"
    using keys_merged_field [of E T "''devDependencies''"]
      keys_merged_field [of E T "''dependencies''"] by auto
  then have "''bake'' \<notin> fst ` set (merged_props E T)"
    by (auto simp: merged_props_def keys_overlay delete_notin_dom)
  then have "map_of (merged_props E T) ''bake'' = None"
    by (simp add: map_of_eq_None_iff)
  then show ?thesis
    by (simp add: R get_JObj_distinct distinct_merged_props del: get.simps)
qed

text \<open>
  Claim C2. The merged manifest never has a \<^verbatim>\<open>bake\<close> key (\<open>mergeJSON_value_no_bake\<close>),
  but a manifest written to a destination that does not exist is not merged: \<^verbatim>\<open>json\<close>
  hands it to \<^verbatim>\<open>stream\<close>, which copies the file as it is. In Scenario A the per-file
  operation for the manifest is a plain copy, and the \<^verbatim>\<open>package.json\<close> of the working
  directory after the operation, and after the whole run, is the template's manifest with
  its \<^verbatim>\<open>bake\<close> key.
\<close>

theorem fresh_manifest_keeps_bake:
  "json_file [''lib'', ''node'', ''package.json''] [''work'', ''package.json''] demo_fs
     = (Pending ''package.json'' (Copy [''work'', ''package.json''] (Json node_manifest)),
        [Read [''lib'', ''node'', ''package.json''],
         Log Info ''Streaming %s file content to %s'' ''package.json''])
   \<and> lookup (fst (snd (settle
          (Pending ''package.json'' (Copy [''work'', ''package.json''] (Json node_manifest)))
          demo_fs))) [''work'', ''package.json'']
       = Some (File (Json node_manifest))
   \<and> lookup (fst (snd (run demo_shell [2, 0] demo_templates [''work''] (Some ''node'') [] demo_fs)))
        [''work'', ''package.json'']
       = Some (File (Json node_manifest))
   \<and> get node_manifest ''bake'' = Some (JObj [(''scripts'', JObj [(''install'', JStr ''echo done'')])])"
  by (simp add: run_def find_template_def name_or_default_def scripts_of_def or_empty_def
      invoke_def script_def read_property_def object_prototype_def overlay_def
      expandTemplateDirectory_def expand_file_def template_file_def
      json_file_def stream_def Promise_all_def finished_def fs_defs
      demo_shell_def demo_templates_def demo_fs_def node_template_def node_manifest_def Let_def)

text \<open>
  When \<^verbatim>\<open>CLI.fail\<close> is called in a run, it is called once, last, and the run has failed with
  the error it is given; in every other outcome it is not called at all.
\<close>

lemma run_fail_once:
  assumes "run sh sched templates cwd name args fs = (out, fs', tr)"
  shows "filter is_fail tr = (case out of Failed e \<Rightarrow> [Fail e] | _ \<Rightarrow> [])"
proof (cases "find_template templates name")
  case None
  then show ?thesis
    using assms by (auto simp: run_def)
next
  case (Some t)
  define scripts where "scripts = scripts_of t"
  define running where "running = [Log Info ''Running %s template'' (name_or_default name)]"
  have run: "run sh sched templates cwd name args fs =
     (case invoke sh scripts ''start'' fs of
        (Some e, fs1, evs1) \<Rightarrow> (Escaped e, fs1, running @ evs1)
      | (None, fs1, evs1) \<Rightarrow>
          (case expandTemplateDirectory t cwd fs1 of
             (Inl e, evs2) \<Rightarrow> (Escaped e, fs1, running @ evs1 @ evs2)
           | (Inr (d, promises), evs2) \<Rightarrow>
               (case Promise_all sched promises fs1 of
                  (Rejected e, fs2, evs3) \<Rightarrow>
                    (Failed e, fs2, running @ evs1 @ evs2 @ evs3 @ [Fail e])
                | (Uncaught e, fs2, evs3) \<Rightarrow>
                    (Crashed e, fs2, running @ evs1 @ evs2 @ evs3)
                | (Fulfilled, fs2, evs3) \<Rightarrow>
                    (case invoke sh scripts ''install'' fs2 of
                       (Some e, fs3, evs4) \<Rightarrow>
                         (Failed e, fs3, running @ evs1 @ evs2 @ evs3 @ evs4 @ [Fail e])
                     | (None, fs3, evs4) \<Rightarrow>
                         (Resolved, fs3, running @ evs1 @ evs2 @ evs3 @ evs4)))))"
    unfolding run_def Some Let_def scripts_def running_def by simp
  have r0: "filter is_fail running = []"
    by (simp add: running_def)
  obtain r1 fs1 e1 where i1: "invoke sh scripts ''start'' fs = (r1, fs1, e1)"
    by (cases "invoke sh scripts ''start'' fs") auto
  have a1: "filter is_fail e1 = []"
    using invoke_stages [OF i1, of 0] by (simp add: hook_stage_def)
  show ?thesis
  proof (cases r1)
    case (Some e)
    then show ?thesis
      using assms r0 a1 by (auto simp: run i1)
  next
    case None
    obtain x e2 where x: "expandTemplateDirectory t cwd fs1 = (x, e2)"
      by (cases "expandTemplateDirectory t cwd fs1") auto
    note a2 = expandTemplateDirectory_stages [OF x]
    have f2: "filter is_fail e2 = []"
      using a2 by simp
    show ?thesis
    proof (cases x)
      case (Inl e)
      then show ?thesis
        using assms None r0 a1 f2 by (auto simp: run i1 x)
    next
      case (Inr dp)
      obtain d promises where dp: "dp = (d, promises)" by (cases dp)
      obtain r3 fs3 e3 where p: "Promise_all sched promises fs1 = (r3, fs3, e3)"
        by (cases "Promise_all sched promises fs1") auto
      have "case promises of None \<Rightarrow> True | Some ps \<Rightarrow> \<forall>p \<in> set ps. file_promise p"
        using a2 Inr dp by (auto split: option.splits)
      from Promise_all_stages [OF p this] have f3: "filter is_fail e3 = []"
        by simp
      show ?thesis
      proof (cases r3)
        case (Rejected e)
        then show ?thesis
          using assms None Inr dp r0 a1 f2 f3 by (auto simp: run i1 x p)
      next
        case (Uncaught e)
        then show ?thesis
          using assms None Inr dp r0 a1 f2 f3 by (auto simp: run i1 x p)
      next
        case Fulfilled
        obtain r4 fs4 e4 where i4: "invoke sh scripts ''install'' fs3 = (r4, fs4, e4)"
          by (cases "invoke sh scripts ''install'' fs3") auto
        have a4: "filter is_fail e4 = []"
          using invoke_stages [OF i4, of 2] by (simp add: hook_stage_def)
        show ?thesis
          using assms None Inr dp Fulfilled r0 a1 f2 f3 a4
          by (cases r4) (auto simp: run i1 x p i4)
      qed
    qed
  qed
qed

lemma install_failure_reported:
  "run demo_shell [] late_templates [''work''] (Some ''late'') [] late_fs
     = (Failed (ScriptExecutionError (Own (JStr ''exit 1''))), late_fs,
        [Log Info ''Running %s template'' ''late'',
         Log Debug ''Invoke %s'' ''start'',
         ReadDir [''lib'', ''late''],
         Log Warning ''%s%salready exists, merging'' ''package.json'',
         Require [''work'', ''package.json''],
         Require [''lib'', ''late'', ''package.json''],
         Log Verbose ''JSON:'' ''package.json'',
         Write [''work'', ''package.json''],
         Log Debug ''Finished merging %s file'' ''package.json'',
         Log Info ''%s%s-> %s'' ''package.json'',
         Log Debug ''Finished streaming %s content'' ''package.json'',
         Log Debug ''Invoke %s'' ''install'',
         Log Info ''%s script'' ''install'',
         Spawn ''install'' (Own (JStr ''exit 1'')),
         Exited ''install'' False,
         Fail (ScriptExecutionError (Own (JStr ''exit 1'')))])"
  by (simp add: run_def find_template_def name_or_default_def scripts_of_def or_empty_def
      invoke_def script_def read_property_def object_prototype_def overlay_def
      expandTemplateDirectory_def expand_file_def template_file_def
      json_file_def mergeJSON_def mergeJSON_value_def merged_field_def stringify_def assign_def
      Promise_all_def finished_def fs_defs
      demo_shell_def late_templates_def late_fs_def late_manifest_def Let_def)

text \<open>
  Claim C7. No failure is reported twice (\<open>run_fail_once\<close>), and a failure of the install
  phase or of a per-file operation reaches \<^verbatim>\<open>CLI.fail\<close> (\<open>install_failure_reported\<close> is an
  instance), but a failure of the start phase does not: the run of a template whose start
  hook exits with an error ends with the rejection and a trace in which \<^verbatim>\<open>CLI.fail\<close> is
  never called, and \<^verbatim>\<open>init\<close> passes the rejection on.
\<close>

theorem start_failure_escapes:
  "run demo_shell [] bad_templates [''work''] (Some ''bad'') [] bad_fs
     = (Escaped (ScriptExecutionError (Own (JStr ''exit 1''))), bad_fs,
        [Log Info ''Running %s template'' ''bad'',
         Log Debug ''Invoke %s'' ''start'',
         Log Info ''%s script'' ''start'',
         Spawn ''start'' (Own (JStr ''exit 1'')),
         Exited ''start'' False])
   \<and> init demo_shell [] bad_templates [''work''] False [''bad''] bad_fs
     = run demo_shell [] bad_templates [''work''] (Some ''bad'') [] bad_fs"
  by (simp add: init_def run_def find_template_def name_or_default_def scripts_of_def or_empty_def
      invoke_def script_def read_property_def object_prototype_def overlay_def
      demo_shell_def bad_templates_def bad_manifest_def Let_def)

end
